theory Spec2Isabelle
  imports Complex_Main "HOL-Library.Sublist" "HOL-Library.Char_ord"
    "HOL-Library.List_Lexorder" "HOL-Library.Product_Lexorder" "HOL-Library.AList"
begin

section \<open>The proxy node pool of core/proxy\_pool.py\<close>

text \<open>
  The development embeds the scoring, penalty and selection engine of
  \<^verbatim>\<open>src/core/proxy_pool.py\<close>: failure classification, name parsing and the
  static base score, the penalty ledger with its idle reset, the preflight prober, the
  ensure-reachable loop, the failure hook and the name handling of provider ingestion.

  Conventions of the embedding.
  \<^item> A Python \<^verbatim>\<open>str\<close> is a \<^typ>\<open>string\<close> holding its UTF-8 encoding. Substring
    tests, splitting and comparison give the same answers on code points and on their
    encodings. \<^verbatim>\<open>strip\<close> removes the encodings of the characters that Python counts
    as white space; no encoding ends inside another, so on encoded text this is the
    stripping of the characters. \<^verbatim>\<open>lower\<close> acts on the ASCII letters and leaves every
    other byte alone. Python also lowers the cased letters outside ASCII, and the result
    lies outside ASCII except for U+212A (lowered to \<^verbatim>\<open>k\<close>) and U+0130 (lowered to
    \<^verbatim>\<open>i\<close> and a combining dot); the code looks in lowered text only for ASCII markers,
    none of which contains \<^verbatim>\<open>k\<close> or ends in \<^verbatim>\<open>i\<close>, so each of these tests has the
    answer it has in Python.
  \<^item> A Python \<^verbatim>\<open>float\<close> is a \<^typ>\<open>real\<close>: rounding is not modelled.
  \<^item> A \<^verbatim>\<open>dict\<close> is an association list in insertion order.
  \<^item> An exception is a value of \<open>error\<close>; the answers of the outside world (clock,
    controller, probes) are read from an environment of scripts, one answer per call.
\<close>

subsection \<open>Strings\<close>

text \<open>
  The characters of which Python's \<^verbatim>\<open>str.isspace\<close> holds, which are the ones that
  \<^verbatim>\<open>strip\<close> and \<^verbatim>\<open>rstrip\<close> remove, each in UTF-8: U+0009 to U+000D, U+001C to
  U+001F, U+0020, U+0085, U+00A0, U+1680, U+2000 to U+200A, U+2028, U+2029, U+202F,
  U+205F and U+3000.
\<close>

definition blanks :: "string list" where
  "blanks =
     [[CHR 0x09], [CHR 0x0A], [CHR 0x0B], [CHR 0x0C], [CHR 0x0D],
      [CHR 0x1C], [CHR 0x1D], [CHR 0x1E], [CHR 0x1F], [CHR 0x20],
      [CHR 0xC2, CHR 0x85], [CHR 0xC2, CHR 0xA0], [CHR 0xE1, CHR 0x9A, CHR 0x80],
      [CHR 0xE2, CHR 0x80, CHR 0x80], [CHR 0xE2, CHR 0x80, CHR 0x81],
      [CHR 0xE2, CHR 0x80, CHR 0x82], [CHR 0xE2, CHR 0x80, CHR 0x83],
      [CHR 0xE2, CHR 0x80, CHR 0x84], [CHR 0xE2, CHR 0x80, CHR 0x85],
      [CHR 0xE2, CHR 0x80, CHR 0x86], [CHR 0xE2, CHR 0x80, CHR 0x87],
      [CHR 0xE2, CHR 0x80, CHR 0x88], [CHR 0xE2, CHR 0x80, CHR 0x89],
      [CHR 0xE2, CHR 0x80, CHR 0x8A], [CHR 0xE2, CHR 0x80, CHR 0xA8],
      [CHR 0xE2, CHR 0x80, CHR 0xA9], [CHR 0xE2, CHR 0x80, CHR 0xAF],
      [CHR 0xE2, CHR 0x81, CHR 0x9F], [CHR 0xE3, CHR 0x80, CHR 0x80]]"

text \<open>\<open>strip_left bs s\<close> takes from the front of \<open>s\<close> the members of \<open>bs\<close> it finds
  there, one after the other, until none is left.\<close>

function strip_left :: "string list \<Rightarrow> string \<Rightarrow> string" where
  "strip_left bs s =
     (case find (\<lambda>b. b \<noteq> [] \<and> prefix b s) bs of
        Some b \<Rightarrow> strip_left bs (drop (length b) s)
      | None \<Rightarrow> s)"
  by pat_completeness auto

termination
proof (relation "measure (\<lambda>p. length (snd p))")
  show "wf (measure (\<lambda>p. length (snd p)))" by simp
next
  fix bs :: "string list" and s b :: string
  assume "find (\<lambda>b. b \<noteq> [] \<and> prefix b s) bs = Some b"
  then have "b \<noteq> []" and "prefix b s" by (auto simp: find_Some_iff)
  then have "0 < length b" and "length b \<le> length s" by (auto simp: prefix_length_le)
  then have "length s - length b < length s" by linarith
  then show "((bs, drop (length b) s), (bs, s)) \<in> measure (\<lambda>p. length (snd p))" by simp
qed

declare strip_left.simps [simp del]

definition lstrip :: "string \<Rightarrow> string" where
  "lstrip s = strip_left blanks s"

definition rstrip :: "string \<Rightarrow> string" where
  "rstrip s = rev (strip_left (map rev blanks) (rev s))"

definition strip :: "string \<Rightarrow> string" where
  "strip s = rstrip (lstrip s)"

definition uppers :: string where
  "uppers = ''ABCDEFGHIJKLMNOPQRSTUVWXYZ''"

definition lowers :: string where
  "lowers = ''abcdefghijklmnopqrstuvwxyz''"

definition lower_char :: "char \<Rightarrow> char" where
  "lower_char c = (case map_of (zip uppers lowers) c of Some l \<Rightarrow> l | None \<Rightarrow> c)"

definition lower :: "string \<Rightarrow> string" where
  "lower s = map lower_char s"

text \<open>\<open>contains m s\<close> is Python's \<^verbatim>\<open>m in s\<close>.\<close>

fun contains :: "string \<Rightarrow> string \<Rightarrow> bool" where
  "contains m [] = (m = [])"
| "contains m (c # cs) = (prefix m (c # cs) \<or> contains m cs)"

subsection \<open>Failure classification\<close>

text \<open>The marker of the mail branch that is compared with the raw text (UTF-8 of the
  five-character Chinese phrase for "verification code timed out").\<close>

definition otp_timeout_cn :: string where
  "otp_timeout_cn = [CHR 0xE9, CHR 0xAA, CHR 0x8C, CHR 0xE8, CHR 0xAF, CHR 0x81, CHR 0xE7,
     CHR 0xA0, CHR 0x81, CHR 0xE8, CHR 0xB6, CHR 0x85, CHR 0xE6, CHR 0x97, CHR 0xB6]"

definition risk_markers :: "string list" where
  "risk_markers =
     [''signin-error'',
      ''let'' @ [CHR 0x27] @ ''s try something else'',
      ''we had trouble retrieving the email address'',
      ''recaptcha challenge'',
      ''send code button not found'',
      ''code input not found'',
      ''verification code submission failed'',
      ''url parameters not found'',
      ''cid not found'']"

definition proxy_markers :: "string list" where
  "proxy_markers =
     [''err_proxy_connection_failed'',
      ''err_tunnel_connection_failed'',
      ''proxyerror'',
      ''cannot connect to proxy'',
      ''connection refused'',
      ''connect timeout'',
      ''read timed out'',
      ''timed out'',
      ''ssl'',
      ''net::err_'']"

definition is_mail :: "string \<Rightarrow> string \<Rightarrow> bool" where
  "is_mail raw low =
     (contains ''verification code timeout'' low \<or> contains otp_timeout_cn raw
      \<or> contains ''otp_timeout'' low)"

definition classify_failure :: "string \<Rightarrow> string \<times> string" where
  "classify_failure error =
     (let raw = strip error; low = lower raw in
      if raw = [] then (''other'', ''empty'')
      else if is_mail raw low then (''mail'', ''otp_timeout'')
      else (case find (\<lambda>m. contains m low) risk_markers of
              Some m \<Rightarrow> (''risk'', m)
            | None \<Rightarrow>
                (case find (\<lambda>m. contains m low) proxy_markers of
                   Some m \<Rightarrow> (''proxy'', m)
                 | None \<Rightarrow> (''other'', ''unknown''))))"

subsection \<open>Name parsing and the static base score\<close>

text \<open>\<open>split sep s\<close> is Python's \<^verbatim>\<open>s.split(sep)\<close> for a non-empty separator:
  the pieces between the occurrences of \<open>sep\<close>, found from the left without overlap.\<close>

fun split_from :: "string \<Rightarrow> string \<Rightarrow> string \<Rightarrow> string list" where
  "split_from sep piece [] = [piece]"
| "split_from sep piece (c # cs) =
     (if sep \<noteq> [] \<and> prefix sep (c # cs)
      then piece # split_from sep [] (drop (length sep - 1) cs)
      else split_from sep (piece @ [c]) cs)"

definition split :: "string \<Rightarrow> string \<Rightarrow> string list" where
  "split sep s = split_from sep [] s"

text \<open>Python's \<^verbatim>\<open>x or "unknown"\<close> on strings.\<close>

definition or_unknown :: "string \<Rightarrow> string" where
  "or_unknown s = (if s = [] then ''unknown'' else s)"

text \<open>The non-ASCII constants of the source, as UTF-8: the marker of a banned name,
  the full-width bar that separates the tags of a name, and the keys of the line and
  risk tables.\<close>

definition garbage_marker :: string where
  "garbage_marker = [CHR 0xE9, CHR 0x98, CHR 0xB2, CHR 0xE8, CHR 0x8C, CHR 0x83, CHR 0xE5,
     CHR 0xA2, CHR 0x83, CHR 0xE5, CHR 0xA4, CHR 0x96, CHR 0xE5, CHR 0x8A, CHR 0xBF, CHR 0xE5,
     CHR 0x8A, CHR 0x9B, CHR 0xE6, CHR 0xB8, CHR 0x97, CHR 0xE9, CHR 0x80, CHR 0x8F]"

definition tag_bar :: string where
  "tag_bar = [CHR 0xEF, CHR 0xBD, CHR 0x9C]"

definition line_business :: string where
  "line_business = [CHR 0xE5, CHR 0x95, CHR 0x86, CHR 0xE5, CHR 0xAE, CHR 0xBD]"

definition line_native_home :: string where
  "line_native_home = [CHR 0xE5, CHR 0x8E, CHR 0x9F, CHR 0xE7, CHR 0x94, CHR 0x9F, CHR 0x2F,
     CHR 0xE7, CHR 0x96, CHR 0x91, CHR 0xE4, CHR 0xBC, CHR 0xBC, CHR 0xE5, CHR 0xAE, CHR 0xB6,
     CHR 0xE5, CHR 0xAE, CHR 0xBD]"

definition line_home :: string where
  "line_home = [CHR 0xE5, CHR 0xAE, CHR 0xB6, CHR 0xE5, CHR 0xAE, CHR 0xBD]"

definition line_datacenter :: string where
  "line_datacenter = [CHR 0xE6, CHR 0x9C, CHR 0xBA, CHR 0xE6, CHR 0x88, CHR 0xBF]"

definition risk_high :: string where
  "risk_high = [CHR 0xE9, CHR 0xAB, CHR 0x98, CHR 0xE9, CHR 0xA3, CHR 0x8E, CHR 0xE9,
     CHR 0x99, CHR 0xA9]"

definition risk_low :: string where
  "risk_low = [CHR 0xE4, CHR 0xBD, CHR 0x8E, CHR 0xE9, CHR 0xA3, CHR 0x8E, CHR 0xE9,
     CHR 0x99, CHR 0xA9]"

definition risk_very_safe :: string where
  "risk_very_safe = [CHR 0xE9, CHR 0x9D, CHR 0x9E, CHR 0xE5, CHR 0xB8, CHR 0xB8, CHR 0xE5,
     CHR 0xAE, CHR 0x89, CHR 0xE5, CHR 0x85, CHR 0xA8]"

definition BASE_BIAS :: real where
  "BASE_BIAS = - 1.711"

definition KIND_W :: "(string \<times> real) list" where
  "KIND_W = [(''speednode'', 1.874), (''tagged'', 1.102), (''other'', - 2.281),
             (''garbage'', - 2.406)]"

definition LINE_W :: "(string \<times> real) list" where
  "LINE_W = [(line_business, 1.889), (line_native_home, 0.452), (line_home, 0.295),
             (line_datacenter, - 1.534)]"

definition RISK_W :: "(string \<times> real) list" where
  "RISK_W = [(risk_high, - 1.281), (risk_low, 0.831), (risk_very_safe, 1.552)]"

text \<open>\<open>dict_get d k v\<close> is \<^verbatim>\<open>d.get(k, v)\<close>.\<close>

definition dict_get :: "('k \<times> 'v) list \<Rightarrow> 'k \<Rightarrow> 'v \<Rightarrow> 'v" where
  "dict_get d k v = (case map_of d k of Some w \<Rightarrow> w | None \<Rightarrow> v)"

definition sigmoid :: "real \<Rightarrow> real" where
  "sigmoid z = (if z \<ge> 0 then 1 / (1 + exp (- z)) else exp z / (1 + exp z))"

definition parse_name :: "string \<Rightarrow> string \<times> string \<times> string" where
  "parse_name name =
     (if contains garbage_marker name then (''garbage'', ''garbage'', ''garbage'')
      else if contains ''speednode'' (lower name) then (''speednode'', ''speednode'', ''unknown'')
      else
        (let parts = split tag_bar name in
         if length parts \<ge> 3 then
           (let line = or_unknown (strip (parts ! 1));
                risk = or_unknown (strip (takeWhile (\<lambda>c. c \<noteq> CHR ''('') (strip (parts ! 2))))
            in (''tagged'', line, risk))
         else (''other'', ''unknown'', ''unknown'')))"

definition base_score :: "string \<Rightarrow> real" where
  "base_score name =
     (case parse_name name of
        (kind, line, risk) \<Rightarrow>
          (let z = BASE_BIAS + dict_get KIND_W kind 0;
               z' = (if kind = ''tagged''
                     then z + dict_get LINE_W line 0 + dict_get RISK_W risk 0
                     else z)
           in 100 * sigmoid z'))"

subsection \<open>Constants of the engine\<close>

definition GROUP_SENTINELS :: "string list" where
  "GROUP_SENTINELS = [''DIRECT'', ''REJECT'']"

definition PREFLIGHT_URLS :: "string list" where
  "PREFLIGHT_URLS =
     [''https://www.gstatic.com/generate_204'',
      ''https://auth.business.gemini.google/login?continueUrl=https://business.gemini.google/'']"

definition SCORE_THRESHOLD :: real where
  "SCORE_THRESHOLD = 10"

definition REFRESH_IDLE_SECONDS :: real where
  "REFRESH_IDLE_SECONDS = 21600"

definition PENALTY_PREFLIGHT :: real where
  "PENALTY_PREFLIGHT = 100"

definition PENALTY_RISK :: real where
  "PENALTY_RISK = 60"

definition PENALTY_PROXY :: real where
  "PENALTY_PROXY = 30"

definition PENALTY_MAIL :: real where
  "PENALTY_MAIL = 5"

subsection \<open>The pool, its settings and the outside world\<close>

text \<open>
  The trace records the two outward actions the properties speak about: the idle reset
  (the branch of \<^verbatim>\<open>_maybe_refresh_dynamic\<close> that clears the ledger and logs it) and
  each selection request (the PUT of \<^verbatim>\<open>_select_group\<close>), which is recorded with its
  target and with the ledger \<^verbatim>\<open>_dyn_penalty\<close> as it stands when the request is made.
\<close>

datatype event = Refreshed | Select string "(string \<times> real) list"

record settings =
  enabled :: bool
  required :: bool
  chromego_ip :: int

text \<open>
  The fields of the \<^verbatim>\<open>ProxyPool\<close> object: the ledger \<^verbatim>\<open>_dyn_penalty\<close>, the idle
  timer \<^verbatim>\<open>_last_switch_ts\<close> and whether \<^verbatim>\<open>_lock\<close> is held; then the number of
  calls made so far to each service of the outside world, and the trace.
\<close>

record pool =
  dyn_penalty :: "(string \<times> real) list"
  last_switch_ts :: real
  lock_held :: bool
  clock_calls :: nat
  group_calls :: nat
  probe_calls :: nat
  put_calls :: nat
  init_calls :: nat
  events :: "event list"

text \<open>What a probe's \<^verbatim>\<open>requests.get\<close> gives: a response with a status code, or an
  exception with its type name and message.\<close>

datatype http_reply = Status int | Failed string string

text \<open>What the controller's \<^verbatim>\<open>/proxies\<close> holds for the group, when it is well formed:
  the current selection (\<open>None\<close> when absent, null or not a string), the member list and
  the nodes that carry a boolean \<^verbatim>\<open>alive\<close>.\<close>

record group_json =
  g_now :: "string option"
  g_all :: "string list"
  g_alive :: "(string \<times> bool) list"

text \<open>
  The outside world: the \<open>i\<close>-th reading of \<^verbatim>\<open>time.monotonic()\<close>, the \<open>i\<close>-th answer of
  the controller to \<^verbatim>\<open>GET /proxies\<close> (\<open>None\<close>: the request fails or the answer is
  malformed), the \<open>i\<close>-th probe's outcome, whether the \<open>i\<close>-th PUT is answered with
  success, and whether the \<open>i\<close>-th start-up (provider fetch and engine start) succeeds.
\<close>

record env =
  monotonic :: "nat \<Rightarrow> real"
  proxies_reply :: "nat \<Rightarrow> group_json option"
  probe_reply :: "nat \<Rightarrow> http_reply"
  put_reply :: "nat \<Rightarrow> bool"
  init_reply :: "nat \<Rightarrow> bool"

datatype error = InitError | ControllerError | NoCandidates | EmptySequence
  | PoolExhausted real | NoProxiesFetched | NotSerializable

text \<open>How a call ends: it returns, it raises, or it waits for ever on the lock.\<close>

datatype 'a outcome = Returns 'a | Raises error | Blocks

subsection \<open>Score and penalty ledger\<close>

definition score :: "(string \<times> real) list \<Rightarrow> string \<Rightarrow> real" where
  "score dyn name = base_score name - dict_get dyn name 0"

text \<open>\<^verbatim>\<open>d.setdefault(k, v)\<close>, for its effect on the dictionary.\<close>

definition setdefault :: "'k \<Rightarrow> 'v \<Rightarrow> ('k \<times> 'v) list \<Rightarrow> ('k \<times> 'v) list" where
  "setdefault k v d = (case map_of d k of Some _ \<Rightarrow> d | None \<Rightarrow> d @ [(k, v)])"

definition maybe_refresh_dynamic :: "env \<Rightarrow> pool \<Rightarrow> pool" where
  "maybe_refresh_dynamic w st =
     (let idle = monotonic w (clock_calls st) - last_switch_ts st;
          st1 = st\<lparr>clock_calls := clock_calls st + 1\<rparr>
      in
      if idle < REFRESH_IDLE_SECONDS then st1
      else
        (let st2 = st1\<lparr>last_switch_ts := monotonic w (clock_calls st1),
                       clock_calls := clock_calls st1 + 1\<rparr>
         in
         if \<not> list_ex (\<lambda>v. v > 0) (map snd (dyn_penalty st)) then st2
         else st2\<lparr>dyn_penalty := map (\<lambda>kv. (fst kv, 0)) (dyn_penalty st),
                  events := events st @ [Refreshed]\<rparr>))"

definition penalty_amount :: "string \<Rightarrow> real" where
  "penalty_amount kind =
     (if kind = ''preflight'' then PENALTY_PREFLIGHT
      else if kind = ''risk'' then PENALTY_RISK
      else if kind = ''proxy'' then PENALTY_PROXY
      else if kind = ''mail'' then PENALTY_MAIL
      else PENALTY_RISK)"

definition apply_penalty :: "string \<Rightarrow> string \<Rightarrow> pool \<Rightarrow> pool" where
  "apply_penalty name kind st =
     st\<lparr>dyn_penalty :=
          AList.update name (dict_get (dyn_penalty st) name 0 + penalty_amount kind)
            (dyn_penalty st)\<rparr>"

subsection \<open>Start-up, controller and preflight\<close>

definition ensure_started :: "settings \<Rightarrow> env \<Rightarrow> pool \<Rightarrow> unit outcome \<times> pool" where
  "ensure_started s w st =
     (if \<not> enabled s then (Returns (), st)
      else if lock_held st then (Blocks, st)
      else
        (let st1 = st\<lparr>init_calls := init_calls st + 1\<rparr> in
         if init_reply w (init_calls st) then (Returns (), st1)
         else if required s then (Raises InitError, st1)
         else (Returns (), st1)))"

definition get_group ::
  "env \<Rightarrow> pool \<Rightarrow> (error + string option \<times> string list \<times> (string \<Rightarrow> bool option)) \<times> pool"
where
  "get_group w st =
     (let st1 = st\<lparr>group_calls := group_calls st + 1\<rparr> in
      case proxies_reply w (group_calls st) of
        None \<Rightarrow> (Inl ControllerError, st1)
      | Some g \<Rightarrow>
          (let candidates = filter (\<lambda>n. n \<notin> set GROUP_SENTINELS) (g_all g);
               alive_map = (\<lambda>n. if n \<in> set candidates then map_of (g_alive g) n else None)
           in (Inr (g_now g, candidates, alive_map), st1)))"

definition select_group :: "env \<Rightarrow> string \<Rightarrow> pool \<Rightarrow> (error + unit) \<times> pool" where
  "select_group w name st =
     (let st1 = st\<lparr>put_calls := put_calls st + 1,
                    events := events st @ [Select name (dyn_penalty st)]\<rparr>
      in if put_reply w (put_calls st) then (Inr (), st1) else (Inl ControllerError, st1))"

text \<open>Python's \<^verbatim>\<open>str\<close> of an integer.\<close>

fun str_nat :: "nat \<Rightarrow> string" where
  "str_nat n =
     (if n < 10 then [''0123456789'' ! n]
      else str_nat (n div 10) @ [''0123456789'' ! (n mod 10)])"

declare str_nat.simps [simp del]

definition str_int :: "int \<Rightarrow> string" where
  "str_int i = (if i < 0 then ''-'' @ str_nat (nat (- i)) else str_nat (nat i))"

text \<open>The body of \<^verbatim>\<open>_probe_once\<close> after the request: the verdict and the detail
  string for a URL and what the request gave.\<close>

definition probe_result :: "string \<Rightarrow> http_reply \<Rightarrow> bool \<times> string" where
  "probe_result url r =
     (case r of
        Status status \<Rightarrow>
          if status = 407 then (False, url @ '': proxy auth required (407)'')
          else if 200 \<le> status \<and> status < 400 then (True, url @ '': '' @ str_int status)
          else (False, url @ '': '' @ str_int status)
      | Failed tname msg \<Rightarrow> (False, url @ '': '' @ tname @ '': '' @ msg))"

definition probe_once :: "env \<Rightarrow> string \<Rightarrow> pool \<Rightarrow> (bool \<times> string) \<times> pool" where
  "probe_once w url st =
     (probe_result url (probe_reply w (probe_calls st)),
      st\<lparr>probe_calls := probe_calls st + 1\<rparr>)"

text \<open>The loop of \<^verbatim>\<open>_preflight\<close> over the URLs still to probe, with the details
  gathered so far.\<close>

fun preflight_from ::
  "env \<Rightarrow> string list \<Rightarrow> string list \<Rightarrow> pool \<Rightarrow> (bool \<times> string list) \<times> pool"
where
  "preflight_from w [] details st = ((True, details), st)"
| "preflight_from w (u # us) details st =
     (case probe_once w u st of
        ((ok, detail), st1) \<Rightarrow>
          if \<not> ok then ((False, details @ [detail]), st1)
          else preflight_from w us (details @ [detail]) st1)"

definition preflight :: "env \<Rightarrow> pool \<Rightarrow> (bool \<times> string list) \<times> pool" where
  "preflight w st = preflight_from w PREFLIGHT_URLS [] st"

subsection \<open>The ensure-reachable loop\<close>

definition truthy :: "string option \<Rightarrow> bool" where
  "truthy now = (case now of None \<Rightarrow> False | Some n \<Rightarrow> n \<noteq> [])"

definition alive_rank :: "bool option \<Rightarrow> nat" where
  "alive_rank v = (if v = Some True then 2 else 1)"

text \<open>Python's \<^verbatim>\<open>max(xs, key=key)\<close>: the first item with the greatest key; on an empty
  sequence it raises.\<close>

fun max_from :: "('a \<Rightarrow> 'k::linorder) \<Rightarrow> 'a \<Rightarrow> 'a list \<Rightarrow> 'a" where
  "max_from key m [] = m"
| "max_from key m (x # xs) = max_from key (if key m < key x then x else m) xs"

definition max_by :: "('a \<Rightarrow> 'k::linorder) \<Rightarrow> 'a list \<Rightarrow> 'a option" where
  "max_by key xs = (case xs of [] \<Rightarrow> None | x # ys \<Rightarrow> Some (max_from key x ys))"

definition pick_best ::
  "(string \<Rightarrow> bool option) \<Rightarrow> (string \<times> real) list \<Rightarrow> string list \<Rightarrow> string option"
where
  "pick_best alive_map dyn candidates =
     max_by (\<lambda>n. (alive_rank (alive_map n), score dyn n, n)) candidates"

text \<open>The sticky check: \<open>Some now\<close> when the current node is kept (the call returns),
  \<open>None\<close> when the loop goes on to the best pick.\<close>

definition sticky ::
  "env \<Rightarrow> string option \<Rightarrow> string list \<Rightarrow> pool \<Rightarrow> string option \<times> pool"
where
  "sticky w now candidates st =
     (case now of
        None \<Rightarrow> (None, st)
      | Some n \<Rightarrow>
          if n \<noteq> [] \<and> n \<in> set candidates \<and> score (dyn_penalty st) n \<ge> SCORE_THRESHOLD then
            (case preflight w st of
               ((ok, details), st1) \<Rightarrow>
                 if ok then (Some n, st1)
                 else (None, apply_penalty n ''preflight'' st1))
          else (None, st))"

text \<open>The switch of the loop: nothing when the best node is the current one; otherwise
  the PUT, and on its success the idle timer is set.\<close>

definition switch_to ::
  "env \<Rightarrow> string option \<Rightarrow> string \<Rightarrow> pool \<Rightarrow> (error + string option) \<times> pool"
where
  "switch_to w now best st =
     (if Some best \<noteq> now then
        (case select_group w best st of
           (Inl e, st1) \<Rightarrow> (Inl e, st1)
         | (Inr _, st1) \<Rightarrow>
             (Inr (Some best),
              st1\<lparr>last_switch_ts := monotonic w (clock_calls st1),
                   clock_calls := clock_calls st1 + 1\<rparr>))
      else (Inr now, st))"

text \<open>Lines 584 to 591 of the loop: every candidate gets a ledger entry, and the
  candidates not marked dead are kept, or all of them when none is left.\<close>

definition register_candidates :: "string list \<Rightarrow> pool \<Rightarrow> pool" where
  "register_candidates all_candidates st =
     st\<lparr>dyn_penalty := foldl (\<lambda>d n. setdefault n 0 d) (dyn_penalty st) all_candidates\<rparr>"

definition usable_candidates :: "string list \<Rightarrow> (string \<Rightarrow> bool option) \<Rightarrow> string list" where
  "usable_candidates all_candidates alive_map =
     (let usable = filter (\<lambda>n. alive_map n \<noteq> Some False) all_candidates
      in if usable \<noteq> [] then usable else all_candidates)"

text \<open>
  The \<^verbatim>\<open>while True\<close> loop of \<^verbatim>\<open>ensure_proxy_reachable\<close>, one iteration per unit of
  fuel; \<open>None\<close> says the fuel ran out. A return carries the value of the local
  \<^verbatim>\<open>now\<close> at the \<^verbatim>\<open>return\<close> statement: the node the caller is left with.
\<close>

fun ensure_loop :: "nat \<Rightarrow> env \<Rightarrow> pool \<Rightarrow> (string outcome \<times> pool) option" where
  "ensure_loop 0 w st = None"
| "ensure_loop (Suc fuel) w st =
     (case get_group w st of
        (Inl e, st1) \<Rightarrow> Some (Raises e, st1)
      | (Inr (now, all_candidates, alive_map), st1) \<Rightarrow>
          if all_candidates = [] then Some (Raises NoCandidates, st1)
          else
            (let st2 = register_candidates all_candidates st1;
                 candidates = usable_candidates all_candidates alive_map
             in
             case sticky w now candidates st2 of
               (Some kept, st3) \<Rightarrow> Some (Returns kept, st3)
             | (None, st3) \<Rightarrow>
                 (case pick_best alive_map (dyn_penalty st3) candidates of
                    None \<Rightarrow> Some (Raises EmptySequence, st3)
                  | Some best \<Rightarrow>
                      (let best_score = score (dyn_penalty st3) best in
                       if best_score < SCORE_THRESHOLD
                       then Some (Raises (PoolExhausted best_score), st3)
                       else
                         (case switch_to w now best st3 of
                            (Inl e, st4) \<Rightarrow> Some (Raises e, st4)
                          | (Inr now1, st4) \<Rightarrow>
                              (case preflight w st4 of
                                 ((ok, details), st5) \<Rightarrow>
                                   if ok then Some (Returns (the now1), st5)
                                   else
                                     ensure_loop fuel w
                                       (if truthy now1
                                        then apply_penalty (the now1) ''preflight'' st5
                                        else st5)))))))"

declare ensure_loop.simps(2) [simp del]

definition ensure_proxy_reachable ::
  "nat \<Rightarrow> settings \<Rightarrow> env \<Rightarrow> pool \<Rightarrow> (unit outcome \<times> pool) option"
where
  "ensure_proxy_reachable fuel s w st =
     (if \<not> enabled s then Some (Returns (), st)
      else
        (case ensure_started s w st of
           (Returns _, st1) \<Rightarrow>
             if lock_held st1 then Some (Blocks, st1)
             else
               (case ensure_loop fuel w (maybe_refresh_dynamic w (st1\<lparr>lock_held := True\<rparr>)) of
                  None \<Rightarrow> None
                | Some (Returns _, st2) \<Rightarrow> Some (Returns (), st2\<lparr>lock_held := False\<rparr>)
                | Some (Raises e, st2) \<Rightarrow> Some (Raises e, st2\<lparr>lock_held := False\<rparr>)
                | Some (Blocks, st2) \<Rightarrow> Some (Blocks, st2))
         | (r, st1) \<Rightarrow> Some (r, st1)))"

subsection \<open>The failure hook\<close>

text \<open>
  \<^verbatim>\<open>on_failure\<close> takes the lock, reads the group and, when a node is selected,
  penalises it, leaves the lock and runs the ensure-reachable procedure. When no node
  is selected it calls the procedure from inside the \<^verbatim>\<open>with self._lock\<close> block.
\<close>

definition on_failure ::
  "nat \<Rightarrow> settings \<Rightarrow> env \<Rightarrow> pool \<Rightarrow> string \<Rightarrow> string \<Rightarrow> (unit outcome \<times> pool) option"
where
  "on_failure fuel s w st kind detail =
     (if \<not> enabled s then Some (Returns (), st)
      else
        (case ensure_started s w st of
           (Returns _, st1) \<Rightarrow>
             if lock_held st1 then Some (Blocks, st1)
             else
               (case get_group w (st1\<lparr>lock_held := True\<rparr>) of
                  (Inl e, st2) \<Rightarrow> Some (Raises e, st2\<lparr>lock_held := False\<rparr>)
                | (Inr (now, _, _), st2) \<Rightarrow>
                    if \<not> truthy now then
                      (case ensure_proxy_reachable fuel s w st2 of
                         None \<Rightarrow> None
                       | Some (Blocks, st3) \<Rightarrow> Some (Blocks, st3)
                       | Some (r, st3) \<Rightarrow> Some (r, st3\<lparr>lock_held := False\<rparr>))
                    else
                      ensure_proxy_reachable fuel s w
                        ((apply_penalty (the now) kind st2)\<lparr>lock_held := False\<rparr>))
         | (r, st1) \<Rightarrow> Some (r, st1)))"

subsection \<open>Sequences of calls\<close>

text \<open>The calls a client makes on the pool, and a run of them in order. A call that
  raises leaves the pool to the next call; a call that waits for ever on the lock ends
  the run where it stands; \<open>None\<close> says the fuel of a loop ran out.\<close>

datatype call = EnsureReachable | OnFailure string string

fun run_calls :: "nat \<Rightarrow> settings \<Rightarrow> env \<Rightarrow> call list \<Rightarrow> pool \<Rightarrow> pool option" where
  "run_calls fuel s w [] st = Some st"
| "run_calls fuel s w (c # cs) st =
     (case (case c of
              EnsureReachable \<Rightarrow> ensure_proxy_reachable fuel s w st
            | OnFailure kind detail \<Rightarrow> on_failure fuel s w st kind detail) of
        None \<Rightarrow> None
      | Some (Blocks, st1) \<Rightarrow> Some st1
      | Some (_, st1) \<Rightarrow> run_calls fuel s w cs st1)"

text \<open>The number of idle resets on record.\<close>

definition refreshes :: "pool \<Rightarrow> nat" where
  "refreshes st = length (filter (\<lambda>e. e = Refreshed) (events st))"

text \<open>From pool \<open>a\<close> to pool \<open>b\<close> the record of idle resets has not shrunk, and if no
  reset was recorded in between, no penalty has gone down.\<close>

definition ledger_grows :: "pool \<Rightarrow> pool \<Rightarrow> bool" where
  "ledger_grows a b \<longleftrightarrow>
     refreshes a \<le> refreshes b
     \<and> (refreshes b = refreshes a \<longrightarrow>
          (\<forall>m. dict_get (dyn_penalty a) m 0 \<le> dict_get (dyn_penalty b) m 0))"

subsection \<open>Provider ingestion: deduplication of the merged entries\<close>

text \<open>
  A fetched entry is a dictionary from keys to YAML values. The code looks at the value
  under \<^verbatim>\<open>name\<close> through its truth value and its \<^verbatim>\<open>str\<close>, and at the rest of an
  entry through \<^verbatim>\<open>json.dumps\<close> only: a value is a string, null, or any other object
  given by its truth value and its \<^verbatim>\<open>str\<close> text, and \<^verbatim>\<open>json.dumps\<close> (with sorted
  keys) is a parameter \<open>dumps\<close> of the model, which may raise.
\<close>

datatype pyval = PStr string | PNone | PObj bool string

fun py_truthy :: "pyval \<Rightarrow> bool" where
  "py_truthy (PStr s) = (s \<noteq> [])"
| "py_truthy PNone = False"
| "py_truthy (PObj b t) = b"

fun py_str :: "pyval \<Rightarrow> string" where
  "py_str (PStr s) = s"
| "py_str PNone = ''None''"
| "py_str (PObj b t) = t"

text \<open>\<^verbatim>\<open>str(cfg.get("name") or "").rstrip()\<close>\<close>

definition entry_name :: "(string \<times> pyval) list \<Rightarrow> string" where
  "entry_name cfg =
     rstrip (case map_of cfg ''name'' of
               None \<Rightarrow> []
             | Some v \<Rightarrow> if py_truthy v then py_str v else [])"

text \<open>The loop over \<^verbatim>\<open>merged\<close>, with the fingerprints seen, the name counters and the
  output so far.\<close>

fun dedup_from ::
  "((string \<times> pyval) list \<Rightarrow> error + string) \<Rightarrow> (string \<times> pyval) list list \<Rightarrow>
   string list \<Rightarrow> (string \<times> nat) list \<Rightarrow> (string \<times> pyval) list list \<Rightarrow>
   error + (string \<times> pyval) list list"
where
  "dedup_from dumps [] seen_fp name_seen out = Inr out"
| "dedup_from dumps (p # ps) seen_fp name_seen out =
     (let name = entry_name p in
      if name = [] then dedup_from dumps ps seen_fp name_seen out
      else
        (case dumps (AList.delete ''name'' p) of
           Inl e \<Rightarrow> Inl e
         | Inr fp \<Rightarrow>
             if fp \<in> set seen_fp then dedup_from dumps ps seen_fp name_seen out
             else
               (case map_of name_seen name of
                  Some k \<Rightarrow>
                    dedup_from dumps ps (fp # seen_fp) (AList.update name (k + 1) name_seen)
                      (out @ [AList.update ''name''
                                (PStr (name @ ''__dup'' @ str_nat (k + 1))) p])
                | None \<Rightarrow>
                    dedup_from dumps ps (fp # seen_fp) (AList.update name 0 name_seen)
                      (out @ [AList.update ''name'' (PStr name) p]))))"

definition dedup_merged ::
  "((string \<times> pyval) list \<Rightarrow> error + string) \<Rightarrow> (string \<times> pyval) list list \<Rightarrow>
   error + (string \<times> pyval) list list"
where
  "dedup_merged dumps merged =
     (if merged = [] then Inl NoProxiesFetched else dedup_from dumps merged [] [] [])"

text \<open>The names of a provider file's entries, in order.\<close>

definition names_of :: "(string \<times> pyval) list list \<Rightarrow> pyval option list" where
  "names_of out = map (\<lambda>p. map_of p ''name'') out"

subsection \<open>Example pools and worlds\<close>

text \<open>The pool as \<^verbatim>\<open>__init__\<close> builds it at clock reading \<open>t\<close>.\<close>

definition init_pool :: "real \<Rightarrow> pool" where
  "init_pool t =
     \<lparr>dyn_penalty = [], last_switch_ts = t, lock_held = False, clock_calls = 0,
      group_calls = 0, probe_calls = 0, put_calls = 0, init_calls = 0, events = []\<rparr>"

text \<open>A world with a constant clock and a constant, well-formed group, whose probes
  and requests answer as given.\<close>

definition world ::
  "real \<Rightarrow> group_json \<Rightarrow> (nat \<Rightarrow> http_reply) \<Rightarrow> env"
where
  "world t g probes =
     \<lparr>monotonic = (\<lambda>i. t), proxies_reply = (\<lambda>i. Some g), probe_reply = probes,
      put_reply = (\<lambda>i. True), init_reply = (\<lambda>i. True)\<rparr>"

text \<open>A pool that is switched on, and a group of two fast nodes of unknown liveness
  with the given current selection.\<close>

definition settings_on :: settings where
  "settings_on = \<lparr>enabled = True, required = True, chromego_ip = 0\<rparr>"

definition group_ab :: "string option \<Rightarrow> group_json" where
  "group_ab now = \<lparr>g_now = now, g_all = [''DIRECT'', ''speednode-a'', ''speednode-b''],
                   g_alive = []\<rparr>"

text \<open>A fetched entry with a name, a server and a port; and a stand-in for
  \<^verbatim>\<open>json.dumps\<close> that writes the keys and the \<^verbatim>\<open>str\<close> of the values in the order
  given (enough to tell the example entries apart).\<close>

definition example_entry :: "string \<Rightarrow> string \<Rightarrow> (string \<times> pyval) list" where
  "example_entry name server =
     [(''name'', PStr name), (''type'', PStr ''ss''), (''server'', PStr server),
      (''port'', PObj True ''443'')]"

definition example_dumps :: "(string \<times> pyval) list \<Rightarrow> error + string" where
  "example_dumps cfg = Inr (concat (map (\<lambda>kv. fst kv @ '':'' @ py_str (snd kv) @ '','') cfg))"

text \<open>Two tagged node names: business line with low risk, and datacenter line with
  high risk.\<close>

definition node_business_low :: string where
  "node_business_low = ''A'' @ tag_bar @ line_business @ tag_bar @ risk_low"

definition node_datacenter_high :: string where
  "node_datacenter_high = ''B'' @ tag_bar @ line_datacenter @ tag_bar @ risk_high"

text \<open>A group of the two tagged nodes: the first is the current selection, and only the
  second is reported alive. \<open>alive_tagged\<close> is the liveness map that \<^verbatim>\<open>_get_group\<close> builds
  from it.\<close>

definition group_tagged :: group_json where
  "group_tagged =
     \<lparr>g_now = Some node_business_low, g_all = [node_business_low, node_datacenter_high],
      g_alive = [(node_datacenter_high, True)]\<rparr>"

definition alive_tagged :: "string \<Rightarrow> bool option" where
  "alive_tagged n =
     (if n \<in> set [node_business_low, node_datacenter_high]
      then map_of [(node_datacenter_high, True)] n else None)"

text \<open>A pool in which the second fast node carries a penalty.\<close>

definition pool_penalised :: pool where
  "pool_penalised = (init_pool 0)\<lparr>dyn_penalty := [(''speednode-a'', 0), (''speednode-b'', 30)]\<rparr>"

section \<open>Properties\<close>

subsection \<open>Lowering and stripping\<close>

lemma lower_char_other: "d \<notin> set uppers \<Longrightarrow> lower_char d = d"
proof -
  assume "d \<notin> set uppers"
  then have "map_of (zip uppers lowers) d = None"
    by (subst map_of_zip_is_None) (simp_all add: uppers_def lowers_def)
  then show ?thesis by (simp add: lower_char_def)
qed

lemma lower_char_upper: "d \<in> set uppers \<Longrightarrow> lower_char d \<in> set lowers"
  unfolding uppers_def lowers_def set_simps insert_iff empty_iff
  by (elim disjE FalseE; simp add: lower_char_def uppers_def lowers_def)

lemma lowers_not_uppers: "c \<in> set lowers \<Longrightarrow> c \<notin> set uppers"
  unfolding uppers_def lowers_def set_simps insert_iff empty_iff
  by (elim disjE FalseE; simp)

lemma lower_char_idem: "lower_char (lower_char d) = lower_char d"
  by (cases "d \<in> set uppers")
     (simp_all add: lower_char_other lower_char_upper lowers_not_uppers)

lemma lower_idem: "lower (lower s) = lower s"
  by (simp add: lower_def lower_char_idem)

lemma lower_Nil_iff: "lower s = [] \<longleftrightarrow> s = []"
  by (simp add: lower_def)

text \<open>Lowering neither creates nor destroys an occurrence of a text without letters.\<close>

lemma letterless_char:
  "c \<notin> set uppers \<Longrightarrow> c \<notin> set lowers \<Longrightarrow> (c = lower_char d) = (c = d)"
  by (cases "d \<in> set uppers") (auto simp: lower_char_other dest: lower_char_upper)

lemma prefix_lower_letterless:
  "set m \<inter> (set uppers \<union> set lowers) = {} \<Longrightarrow> prefix m (lower s) = prefix m s"
proof (induction m arbitrary: s)
  case Nil
  then show ?case by simp
next
  case (Cons a m)
  then have tl: "set m \<inter> (set uppers \<union> set lowers) = {}"
    and hd: "a \<notin> set uppers" "a \<notin> set lowers"
    by auto
  show ?case
  proof (cases s)
    case Nil
    then show ?thesis by (simp add: lower_def)
  next
    case (Cons b t)
    then show ?thesis
      using Cons.IH [OF tl, of t] letterless_char [OF hd, of b] by (simp add: lower_def)
  qed
qed

text \<open>No byte of a blank is a letter, so lowering and stripping commute.\<close>

lemma letter_codes:
  "c \<in> set uppers \<union> set lowers \<Longrightarrow> 65 \<le> (of_char c :: nat) \<and> (of_char c :: nat) \<le> 122"
  unfolding uppers_def lowers_def set_simps insert_iff empty_iff Un_iff
  by (elim disjE FalseE; simp)

lemma blanks_letterless:
  assumes "b \<in> set blanks"
  shows "set b \<inter> (set uppers \<union> set lowers) = {}"
proof -
  have "\<forall>b \<in> set blanks. \<forall>c \<in> set b. \<not> (65 \<le> (of_char c :: nat) \<and> (of_char c :: nat) \<le> 122)"
    by (simp add: blanks_def)
  with assms have "\<forall>c \<in> set b. c \<notin> set uppers \<union> set lowers"
    using letter_codes by blast
  then show ?thesis by blast
qed

lemma strip_left_lower:
  assumes "\<And>b. b \<in> set bs \<Longrightarrow> set b \<inter> (set uppers \<union> set lowers) = {}"
  shows "lower (strip_left bs s) = strip_left bs (lower s)"
  using assms
proof (induction bs s rule: strip_left.induct)
  case (1 bs s)
  have f: "find (\<lambda>b. b \<noteq> [] \<and> prefix b (lower s)) bs = find (\<lambda>b. b \<noteq> [] \<and> prefix b s) bs"
  proof (rule find_cong [OF refl])
    fix b assume "b \<in> set bs"
    then have "set b \<inter> (set uppers \<union> set lowers) = {}" by (rule "1.prems")
    then have "prefix b (lower s) = prefix b s" by (rule prefix_lower_letterless)
    then show "(b \<noteq> [] \<and> prefix b (lower s)) = (b \<noteq> [] \<and> prefix b s)" by simp
  qed
  show ?case
  proof (cases "find (\<lambda>b. b \<noteq> [] \<and> prefix b s) bs")
    case None
    then show ?thesis
      using f by (simp add: strip_left.simps [of bs s] strip_left.simps [of bs "lower s"])
  next
    case (Some b)
    have "lower (drop (length b) s) = drop (length b) (lower s)"
      by (simp add: lower_def drop_map)
    with "1.IH" [OF Some "1.prems"] Some f show ?thesis
      by (simp add: strip_left.simps [of bs s] strip_left.simps [of bs "lower s"])
  qed
qed

lemma lower_strip: "lower (strip s) = strip (lower s)"
proof -
  have l: "lower (lstrip s) = lstrip (lower s)" for s
    unfolding lstrip_def by (rule strip_left_lower) (rule blanks_letterless)
  have rv: "lower (rev s) = rev (lower s)" for s
    by (simp add: lower_def rev_map)
  have r: "lower (rstrip s) = rstrip (lower s)" for s
  proof -
    have "lower (strip_left (map rev blanks) (rev s))
            = strip_left (map rev blanks) (lower (rev s))"
    proof (rule strip_left_lower)
      fix b assume "b \<in> set (map rev blanks)"
      then obtain c where "c \<in> set blanks" and "b = rev c" by auto
      then show "set b \<inter> (set uppers \<union> set lowers) = {}"
        using blanks_letterless [of c] by simp
    qed
    then show ?thesis by (simp add: rstrip_def rv)
  qed
  show ?thesis by (simp add: strip_def l r)
qed

lemma contains_lower_letterless:
  assumes "set m \<inter> (set uppers \<union> set lowers) = {}"
  shows "contains m (lower s) = contains m s"
proof (induction s)
  case Nil
  then show ?case by (simp add: lower_def)
next
  case (Cons b t)
  have "prefix m (lower (b # t)) = prefix m (b # t)"
    using assms by (rule prefix_lower_letterless)
  moreover have "lower (b # t) = lower_char b # lower t" by (simp add: lower_def)
  ultimately show ?case using Cons by simp
qed

lemma contains_otp_lower: "contains otp_timeout_cn (lower s) = contains otp_timeout_cn s"
  by (rule contains_lower_letterless) (simp add: otp_timeout_cn_def uppers_def lowers_def)

subsection \<open>Failure classification\<close>

lemma is_mail_lower: "is_mail (lower r) (lower r) = is_mail r (lower r)"
  by (simp add: is_mail_def contains_otp_lower)

lemma classify_failure_lower: "classify_failure (lower e) = classify_failure e"
proof -
  have s: "strip (lower e) = lower (strip e)" by (simp add: lower_strip)
  show ?thesis
    unfolding classify_failure_def Let_def s lower_idem lower_Nil_iff is_mail_lower ..
qed

lemma classify_failure_caseless:
  "lower e1 = lower e2 \<Longrightarrow> classify_failure e1 = classify_failure e2"
  by (metis classify_failure_lower)

lemma classify_failure_examples:
  "classify_failure [] = (''other'', ''empty'')"
  "classify_failure ''verification code timeout'' = (''mail'', ''otp_timeout'')"
  "classify_failure ''ERR_PROXY_CONNECTION_FAILED'' = (''proxy'', ''err_proxy_connection_failed'')"
  by code_simp+

lemma classify_failure_order:
  "strip e \<noteq> [] \<Longrightarrow>
     (let raw = strip e; low = lower raw;
          risk = find (\<lambda>m. contains m low) risk_markers;
          proxy = find (\<lambda>m. contains m low) proxy_markers
      in (is_mail raw low \<longrightarrow> classify_failure e = (''mail'', ''otp_timeout''))
       \<and> (\<not> is_mail raw low \<and> risk \<noteq> None \<longrightarrow> classify_failure e = (''risk'', the risk))
       \<and> (\<not> is_mail raw low \<and> risk = None \<and> proxy \<noteq> None \<longrightarrow>
             classify_failure e = (''proxy'', the proxy))
       \<and> (\<not> is_mail raw low \<and> risk = None \<and> proxy = None \<longrightarrow>
             classify_failure e = (''other'', ''unknown'')))"
  by (auto simp: classify_failure_def Let_def)

text \<open>
  C6. \<open>classify_failure\<close> is a function of its input, with the three values the
  specification lists; inputs that are equal after lowering get the same pair; and the
  marker lists are tried in the order mail, risk, proxy, with \<open>other\<close> last: a risk
  or proxy answer carries the first marker of its list that occurs in the lowered text.
  A text that is empty once stripped, such as one made of no-break spaces, is classified
  \<open>other\<close> and \<open>empty\<close>.
\<close>

theorem classify_failure_spec:
  "classify_failure [] = (''other'', ''empty'')
   \<and> classify_failure ''verification code timeout'' = (''mail'', ''otp_timeout'')
   \<and> classify_failure ''ERR_PROXY_CONNECTION_FAILED'' = (''proxy'', ''err_proxy_connection_failed'')
   \<and> (\<forall>e1 e2. lower e1 = lower e2 \<longrightarrow> classify_failure e1 = classify_failure e2)
   \<and> (\<forall>e. strip e \<noteq> [] \<longrightarrow>
         (let raw = strip e; low = lower raw;
              risk = find (\<lambda>m. contains m low) risk_markers;
              proxy = find (\<lambda>m. contains m low) proxy_markers
          in (is_mail raw low \<longrightarrow> classify_failure e = (''mail'', ''otp_timeout''))
           \<and> (\<not> is_mail raw low \<and> risk \<noteq> None \<longrightarrow> classify_failure e = (''risk'', the risk))
           \<and> (\<not> is_mail raw low \<and> risk = None \<and> proxy \<noteq> None \<longrightarrow>
                 classify_failure e = (''proxy'', the proxy))
           \<and> (\<not> is_mail raw low \<and> risk = None \<and> proxy = None \<longrightarrow>
                 classify_failure e = (''other'', ''unknown''))))
   \<and> (\<forall>e. strip e = [] \<longrightarrow> classify_failure e = (''other'', ''empty''))"
  apply (intro conjI allI impI)
       apply (rule classify_failure_examples(1))
      apply (rule classify_failure_examples(2))
     apply (rule classify_failure_examples(3))
    apply (erule classify_failure_caseless)
   apply (erule classify_failure_order)
  apply (simp add: classify_failure_def)
  done

text \<open>The witness: two texts that differ in case only; a text with blanks around a
  proxy marker; and a text of a no-break space, a space and an ideographic space.\<close>

theorem classify_failure_spec_witness:
  "lower ''SSL handshake after Signin-Error'' = lower ''ssl handshake AFTER signin-error''
   \<and> classify_failure ''SSL handshake after Signin-Error''
       = classify_failure ''ssl handshake AFTER signin-error''
   \<and> strip ''  Read Timed Out '' \<noteq> []
   \<and> classify_failure ''  Read Timed Out '' = (''proxy'', ''read timed out'')
   \<and> strip [CHR 0xC2, CHR 0xA0, CHR 0x20, CHR 0xE3, CHR 0x80, CHR 0x80] = []
   \<and> classify_failure [CHR 0xC2, CHR 0xA0, CHR 0x20, CHR 0xE3, CHR 0x80, CHR 0x80]
       = (''other'', ''empty'')"
proof -
  note spec = classify_failure_spec
  have a: "lower ''SSL handshake after Signin-Error'' = lower ''ssl handshake AFTER signin-error''"
    by code_simp
  have b: "strip ''  Read Timed Out '' \<noteq> []"
    by code_simp
  have c: "\<not> is_mail (strip ''  Read Timed Out '') (lower (strip ''  Read Timed Out ''))"
    by code_simp
  have d: "find (\<lambda>m. contains m (lower (strip ''  Read Timed Out ''))) risk_markers = None"
    by code_simp
  have e: "find (\<lambda>m. contains m (lower (strip ''  Read Timed Out ''))) proxy_markers
             = Some ''read timed out''"
    by code_simp
  have 1: "classify_failure ''SSL handshake after Signin-Error''
          = classify_failure ''ssl handshake AFTER signin-error''"
    by (rule spec [THEN conjunct2, THEN conjunct2, THEN conjunct2, THEN conjunct1,
          rule_format, OF a])
  have 2: "classify_failure ''  Read Timed Out '' = (''proxy'', ''read timed out'')"
    using spec [THEN conjunct2, THEN conjunct2, THEN conjunct2, THEN conjunct2, THEN conjunct1,
          rule_format, OF b] c d e
    unfolding Let_def by simp
  have f: "strip [CHR 0xC2, CHR 0xA0, CHR 0x20, CHR 0xE3, CHR 0x80, CHR 0x80] = []"
    by code_simp
  have 3: "classify_failure [CHR 0xC2, CHR 0xA0, CHR 0x20, CHR 0xE3, CHR 0x80, CHR 0x80]
             = (''other'', ''empty'')"
    by (rule spec [THEN conjunct2, THEN conjunct2, THEN conjunct2, THEN conjunct2,
          THEN conjunct2, rule_format, OF f])
  show ?thesis using a b 1 2 f 3 by (intro conjI)
qed

subsection \<open>Preflight\<close>

lemma probe_result_ok:
  "fst (probe_result url r) \<longleftrightarrow> (\<exists>s. r = Status s \<and> 200 \<le> s \<and> s \<le> 399)"
  by (cases r) (auto simp: probe_result_def)

lemma preflight_from_spec:
  "preflight_from w us ds st = ((ok, details), st') \<Longrightarrow>
     \<exists>k \<le> length us.
       details = ds @ map (\<lambda>i. snd (probe_result (us ! i) (probe_reply w (probe_calls st + i)))) [0..<k]
     \<and> st' = st\<lparr>probe_calls := probe_calls st + k\<rparr>
     \<and> (\<forall>i. Suc i < k \<longrightarrow> fst (probe_result (us ! i) (probe_reply w (probe_calls st + i))))
     \<and> (if ok then k = length us \<and> (\<forall>i < k. fst (probe_result (us ! i) (probe_reply w (probe_calls st + i))))
         else 0 < k \<and> \<not> fst (probe_result (us ! (k - 1)) (probe_reply w (probe_calls st + (k - 1)))))"
proof (induction us arbitrary: ds st)
  case Nil
  then show ?case by auto
next
  case (Cons u us)
  let ?r = "probe_result u (probe_reply w (probe_calls st))"
  let ?st1 = "st\<lparr>probe_calls := probe_calls st + 1\<rparr>"
  show ?case
  proof (cases "fst ?r")
    case False
    with Cons.prems have "ok = False" "details = ds @ [snd ?r]" "st' = ?st1"
      by (auto simp: probe_once_def split: prod.splits)
    then show ?thesis using False
      by (intro exI [of _ 1]) simp
  next
    case True
    with Cons.prems have "preflight_from w us (ds @ [snd ?r]) ?st1 = ((ok, details), st')"
      by (auto simp: probe_once_def split: prod.splits)
    from Cons.IH [OF this] obtain k where k: "k \<le> length us"
      "details = (ds @ [snd ?r]) @ map (\<lambda>i. snd (probe_result (us ! i) (probe_reply w (probe_calls ?st1 + i)))) [0..<k]"
      "st' = ?st1\<lparr>probe_calls := probe_calls ?st1 + k\<rparr>"
      "\<forall>i. Suc i < k \<longrightarrow> fst (probe_result (us ! i) (probe_reply w (probe_calls ?st1 + i)))"
      "if ok then k = length us \<and> (\<forall>i < k. fst (probe_result (us ! i) (probe_reply w (probe_calls ?st1 + i))))
         else 0 < k \<and> \<not> fst (probe_result (us ! (k - 1)) (probe_reply w (probe_calls ?st1 + (k - 1))))"
      by blast
    have shift: "map (\<lambda>i. snd (probe_result ((u # us) ! i) (probe_reply w (probe_calls st + i)))) [0..<Suc k]
        = snd ?r # map (\<lambda>i. snd (probe_result (us ! i) (probe_reply w (probe_calls ?st1 + i)))) [0..<k]"
      by (simp add: upt_conv_Cons map_Suc_upt [symmetric] del: upt_Suc)
    have allk: "\<And>i. i < Suc k \<Longrightarrow> (i = 0 \<or> (\<exists>j. i = Suc j \<and> j < k))"
      by (metis less_Suc_eq_0_disj)
    show ?thesis
    proof (intro exI [of _ "Suc k"] conjI)
      show "Suc k \<le> length (u # us)" using k(1) by simp
      show "details = ds @ map (\<lambda>i. snd (probe_result ((u # us) ! i) (probe_reply w (probe_calls st + i)))) [0..<Suc k]"
        unfolding shift using k(2) by simp
      show "st' = st\<lparr>probe_calls := probe_calls st + Suc k\<rparr>" using k(3) by simp
      show "\<forall>i. Suc i < Suc k \<longrightarrow> fst (probe_result ((u # us) ! i) (probe_reply w (probe_calls st + i)))"
      proof (intro allI impI)
        fix i assume "Suc i < Suc k"
        then show "fst (probe_result ((u # us) ! i) (probe_reply w (probe_calls st + i)))"
          using True k(4) by (cases i) auto
      qed
      show "if ok then Suc k = length (u # us) \<and> (\<forall>i < Suc k. fst (probe_result ((u # us) ! i) (probe_reply w (probe_calls st + i))))
         else 0 < Suc k \<and> \<not> fst (probe_result ((u # us) ! (Suc k - 1)) (probe_reply w (probe_calls st + (Suc k - 1))))"
      proof (cases ok)
        case True
        with k(5) have kk: "k = length us" "\<forall>i < k. fst (probe_result (us ! i) (probe_reply w (probe_calls ?st1 + i)))"
          by auto
        have "\<forall>i < Suc k. fst (probe_result ((u # us) ! i) (probe_reply w (probe_calls st + i)))"
        proof (intro allI impI)
          fix i assume "i < Suc k"
          then show "fst (probe_result ((u # us) ! i) (probe_reply w (probe_calls st + i)))"
            using \<open>fst ?r\<close> kk(2) by (cases i) auto
        qed
        with True kk(1) show ?thesis by simp
      next
        case False
        with k(5) have kk: "0 < k" "\<not> fst (probe_result (us ! (k - 1)) (probe_reply w (probe_calls ?st1 + (k - 1))))"
          by auto
        then obtain j where j: "k = Suc j" by (cases k) auto
        with kk(2) False show ?thesis by simp
      qed
    qed
  qed
qed

text \<open>
  C7. Preflight succeeds exactly when every URL of the fixed list, probed in order, gives
  a response with a status from 200 to 399 (so 407 fails). It stops at the first probe
  that fails: it has then made no later request, and the details it returns end with
  that probe's detail string. Nothing of the pool changes but the count of probes.
\<close>

theorem preflight_spec:
  "preflight w st = ((ok, details), st') \<Longrightarrow>
     (\<exists>k \<le> length PREFLIGHT_URLS.
        st' = st\<lparr>probe_calls := probe_calls st + k\<rparr>
      \<and> details = map (\<lambda>i. snd (probe_result (PREFLIGHT_URLS ! i)
                                   (probe_reply w (probe_calls st + i)))) [0..<k]
      \<and> (\<forall>i. Suc i < k \<longrightarrow>
            (\<exists>s. probe_reply w (probe_calls st + i) = Status s \<and> 200 \<le> s \<and> s \<le> 399))
      \<and> (if ok
          then k = length PREFLIGHT_URLS
             \<and> (\<forall>i < k. \<exists>s. probe_reply w (probe_calls st + i) = Status s
                              \<and> 200 \<le> s \<and> s \<le> 399)
          else 0 < k
             \<and> \<not> (\<exists>s. probe_reply w (probe_calls st + (k - 1)) = Status s
                       \<and> 200 \<le> s \<and> s \<le> 399)))
   \<and> (ok \<longleftrightarrow> (\<forall>i < length PREFLIGHT_URLS.
                  \<exists>s. probe_reply w (probe_calls st + i) = Status s \<and> 200 \<le> s \<and> s \<le> 399))
   \<and> fst (probe_result url (Status 407)) = False"
proof -
  assume a: "preflight w st = ((ok, details), st')"
  from preflight_from_spec [OF a [unfolded preflight_def]]
  obtain k where k: "k \<le> length PREFLIGHT_URLS"
    "details = map (\<lambda>i. snd (probe_result (PREFLIGHT_URLS ! i)
                                   (probe_reply w (probe_calls st + i)))) [0..<k]"
    "st' = st\<lparr>probe_calls := probe_calls st + k\<rparr>"
    "\<forall>i. Suc i < k \<longrightarrow> fst (probe_result (PREFLIGHT_URLS ! i) (probe_reply w (probe_calls st + i)))"
    "if ok then k = length PREFLIGHT_URLS
        \<and> (\<forall>i < k. fst (probe_result (PREFLIGHT_URLS ! i) (probe_reply w (probe_calls st + i))))
     else 0 < k \<and> \<not> fst (probe_result (PREFLIGHT_URLS ! (k - 1))
                              (probe_reply w (probe_calls st + (k - 1))))"
    by auto
  have first: "\<exists>k \<le> length PREFLIGHT_URLS.
        st' = st\<lparr>probe_calls := probe_calls st + k\<rparr>
      \<and> details = map (\<lambda>i. snd (probe_result (PREFLIGHT_URLS ! i)
                                   (probe_reply w (probe_calls st + i)))) [0..<k]
      \<and> (\<forall>i. Suc i < k \<longrightarrow>
            (\<exists>s. probe_reply w (probe_calls st + i) = Status s \<and> 200 \<le> s \<and> s \<le> 399))
      \<and> (if ok
          then k = length PREFLIGHT_URLS
             \<and> (\<forall>i < k. \<exists>s. probe_reply w (probe_calls st + i) = Status s
                              \<and> 200 \<le> s \<and> s \<le> 399)
          else 0 < k
             \<and> \<not> (\<exists>s. probe_reply w (probe_calls st + (k - 1)) = Status s
                       \<and> 200 \<le> s \<and> s \<le> 399))"
    using k unfolding probe_result_ok by (intro exI [of _ k]) simp
  have second: "ok \<longleftrightarrow> (\<forall>i < length PREFLIGHT_URLS.
                  \<exists>s. probe_reply w (probe_calls st + i) = Status s \<and> 200 \<le> s \<and> s \<le> 399)"
  proof (cases ok)
    case True
    with k(5) show ?thesis unfolding probe_result_ok by simp
  next
    case False
    with k(5) have "0 < k" and
      "\<not> (\<exists>s. probe_reply w (probe_calls st + (k - 1)) = Status s \<and> 200 \<le> s \<and> s \<le> 399)"
      unfolding probe_result_ok by simp_all
    moreover from \<open>0 < k\<close> k(1) have "k - 1 < length PREFLIGHT_URLS" by simp
    ultimately show ?thesis using False by blast
  qed
  have third: "fst (probe_result url (Status 407)) = False"
    by (simp add: probe_result_def)
  from first second third show ?thesis by (intro conjI)
qed

text \<open>The witness: the first URL answers 204 and the second 500.\<close>

theorem preflight_spec_witness:
  "\<not> fst (fst (preflight (world 0 \<lparr>g_now = None, g_all = [], g_alive = []\<rparr>
                            (\<lambda>i. if i = 0 then Status 204 else Status 500)) (init_pool 0)))
   \<and> probe_calls (snd (preflight (world 0 \<lparr>g_now = None, g_all = [], g_alive = []\<rparr>
                            (\<lambda>i. if i = 0 then Status 204 else Status 500)) (init_pool 0))) = 2"
proof -
  let ?w = "world 0 \<lparr>g_now = None, g_all = [], g_alive = []\<rparr>
              (\<lambda>i. if i = 0 then Status 204 else Status 500)"
  obtain ok details st' where p: "preflight ?w (init_pool 0) = ((ok, details), st')"
    by (metis surj_pair)
  have len: "length PREFLIGHT_URLS = 2" by (simp add: PREFLIGHT_URLS_def)
  note spec = preflight_spec [OF p]
  have iff: "ok \<longleftrightarrow> (\<forall>i < length PREFLIGHT_URLS.
       \<exists>s. probe_reply ?w (probe_calls (init_pool 0) + i) = Status s \<and> 200 \<le> s \<and> s \<le> 399)"
    by (rule spec [THEN conjunct2, THEN conjunct1])
  have "\<not> (\<exists>s. probe_reply ?w (probe_calls (init_pool 0) + 1) = Status s \<and> 200 \<le> s \<and> s \<le> 399)"
    by (simp add: world_def init_pool_def)
  with iff len have nok: "\<not> ok" by (metis one_less_numeral_iff semiring_norm(76))
  from spec [THEN conjunct1] obtain k where k: "k \<le> length PREFLIGHT_URLS"
    "st' = (init_pool 0)\<lparr>probe_calls := probe_calls (init_pool 0) + k\<rparr>"
    "if ok then k = length PREFLIGHT_URLS
             \<and> (\<forall>i < k. \<exists>s. probe_reply ?w (probe_calls (init_pool 0) + i) = Status s
                              \<and> 200 \<le> s \<and> s \<le> 399)
          else 0 < k
             \<and> \<not> (\<exists>s. probe_reply ?w (probe_calls (init_pool 0) + (k - 1)) = Status s
                       \<and> 200 \<le> s \<and> s \<le> 399)"
    by blast
  from k(3) nok have "0 < k"
    and "\<not> (\<exists>s. probe_reply ?w (probe_calls (init_pool 0) + (k - 1)) = Status s
                       \<and> 200 \<le> s \<and> s \<le> 399)"
    by simp_all
  moreover have "\<exists>s. probe_reply ?w (probe_calls (init_pool 0) + (1 - 1)) = Status s
                       \<and> 200 \<le> s \<and> s \<le> 399"
    by (intro exI [of _ 204]) (simp add: world_def init_pool_def)
  ultimately have "k \<noteq> 1" by blast
  with \<open>0 < k\<close> k(1) len have "k = 2" by simp
  with k(2) have "probe_calls st' = 2" by (simp add: init_pool_def)
  with nok p show ?thesis by simp
qed

subsection \<open>The idle reset\<close>

lemma refresh_below:
  "monotonic w (clock_calls st) - last_switch_ts st < REFRESH_IDLE_SECONDS \<Longrightarrow>
   maybe_refresh_dynamic w st = st\<lparr>clock_calls := clock_calls st + 1\<rparr>"
  by (simp add: maybe_refresh_dynamic_def Let_def)

lemma refresh_quiet:
  "\<not> monotonic w (clock_calls st) - last_switch_ts st < REFRESH_IDLE_SECONDS \<Longrightarrow>
   \<not> list_ex (\<lambda>v. v > 0) (map snd (dyn_penalty st)) \<Longrightarrow>
   maybe_refresh_dynamic w st =
     st\<lparr>clock_calls := clock_calls st + 2, last_switch_ts := monotonic w (clock_calls st + 1)\<rparr>"
  by (simp add: maybe_refresh_dynamic_def Let_def)

lemma refresh_reset:
  "\<not> monotonic w (clock_calls st) - last_switch_ts st < REFRESH_IDLE_SECONDS \<Longrightarrow>
   list_ex (\<lambda>v. v > 0) (map snd (dyn_penalty st)) \<Longrightarrow>
   maybe_refresh_dynamic w st =
     st\<lparr>clock_calls := clock_calls st + 2, last_switch_ts := monotonic w (clock_calls st + 1),
        dyn_penalty := map (\<lambda>kv. (fst kv, 0)) (dyn_penalty st),
        events := events st @ [Refreshed]\<rparr>"
  by (simp add: maybe_refresh_dynamic_def Let_def)

text \<open>
  C5, as the code has it. With the elapsed time at or over the threshold and some
  positive penalty, every entry of the ledger becomes 0 (the keys stay), the timer is
  set to the clock and the reset is recorded. With no positive penalty the ledger is
  left alone and no reset is recorded, but the timer is still set to the clock. Below
  the threshold ledger and timer stay as they are.
\<close>

theorem idle_reset_spec:
  "(let idle = monotonic w (clock_calls st) - last_switch_ts st;
        positive = (\<exists>kv \<in> set (dyn_penalty st). snd kv > 0);
        st' = maybe_refresh_dynamic w st
    in (idle \<ge> 21600 \<and> positive \<longrightarrow>
          (\<forall>kv \<in> set (dyn_penalty st'). snd kv = 0)
        \<and> map fst (dyn_penalty st') = map fst (dyn_penalty st)
        \<and> last_switch_ts st' = monotonic w (clock_calls st + 1)
        \<and> events st' = events st @ [Refreshed])
     \<and> (idle \<ge> 21600 \<and> \<not> positive \<longrightarrow>
          dyn_penalty st' = dyn_penalty st
        \<and> last_switch_ts st' = monotonic w (clock_calls st + 1)
        \<and> events st' = events st)
     \<and> (idle < 21600 \<longrightarrow>
          dyn_penalty st' = dyn_penalty st
        \<and> last_switch_ts st' = last_switch_ts st
        \<and> events st' = events st))"
proof -
  have pos: "list_ex (\<lambda>v. v > 0) (map snd (dyn_penalty st))
               \<longleftrightarrow> (\<exists>kv \<in> set (dyn_penalty st). snd kv > 0)"
    by (auto simp: list_ex_iff)
  show ?thesis
    unfolding Let_def
  proof (intro conjI impI)
    assume a: "21600 \<le> monotonic w (clock_calls st) - last_switch_ts st
               \<and> (\<exists>kv \<in> set (dyn_penalty st). snd kv > 0)"
    then have r: "maybe_refresh_dynamic w st =
       st\<lparr>clock_calls := clock_calls st + 2, last_switch_ts := monotonic w (clock_calls st + 1),
          dyn_penalty := map (\<lambda>kv. (fst kv, 0)) (dyn_penalty st),
          events := events st @ [Refreshed]\<rparr>"
      using pos by (intro refresh_reset) (simp_all add: REFRESH_IDLE_SECONDS_def)
    show "\<forall>kv \<in> set (dyn_penalty (maybe_refresh_dynamic w st)). snd kv = 0"
      unfolding r by auto
    show "map fst (dyn_penalty (maybe_refresh_dynamic w st)) = map fst (dyn_penalty st)"
      unfolding r by (simp add: comp_def)
    show "last_switch_ts (maybe_refresh_dynamic w st) = monotonic w (clock_calls st + 1)"
      unfolding r by simp
    show "events (maybe_refresh_dynamic w st) = events st @ [Refreshed]"
      unfolding r by simp
  next
    assume a: "21600 \<le> monotonic w (clock_calls st) - last_switch_ts st
               \<and> \<not> (\<exists>kv \<in> set (dyn_penalty st). snd kv > 0)"
    then have r: "maybe_refresh_dynamic w st =
       st\<lparr>clock_calls := clock_calls st + 2, last_switch_ts := monotonic w (clock_calls st + 1)\<rparr>"
      using pos by (intro refresh_quiet) (simp_all add: REFRESH_IDLE_SECONDS_def)
    show "dyn_penalty (maybe_refresh_dynamic w st) = dyn_penalty st" unfolding r by simp
    show "last_switch_ts (maybe_refresh_dynamic w st) = monotonic w (clock_calls st + 1)"
      unfolding r by simp
    show "events (maybe_refresh_dynamic w st) = events st" unfolding r by simp
  next
    assume a: "monotonic w (clock_calls st) - last_switch_ts st < 21600"
    then have r: "maybe_refresh_dynamic w st = st\<lparr>clock_calls := clock_calls st + 1\<rparr>"
      by (intro refresh_below) (simp add: REFRESH_IDLE_SECONDS_def)
    show "dyn_penalty (maybe_refresh_dynamic w st) = dyn_penalty st" unfolding r by simp
    show "last_switch_ts (maybe_refresh_dynamic w st) = last_switch_ts st" unfolding r by simp
    show "events (maybe_refresh_dynamic w st) = events st" unfolding r by simp
  qed
qed

text \<open>The witness: seven hours after the last switch, with a penalty of 100 on one of
  two nodes.\<close>

theorem idle_reset_spec_witness:
  "dyn_penalty (maybe_refresh_dynamic (world 25200 \<lparr>g_now = None, g_all = [], g_alive = []\<rparr>
       (\<lambda>i. Status 204)) ((init_pool 0)\<lparr>dyn_penalty := [(''a'', 100), (''b'', 0)]\<rparr>))
     = [(''a'', 0), (''b'', 0)]
   \<and> last_switch_ts (maybe_refresh_dynamic (world 25200 \<lparr>g_now = None, g_all = [], g_alive = []\<rparr>
       (\<lambda>i. Status 204)) ((init_pool 0)\<lparr>dyn_penalty := [(''a'', 100), (''b'', 0)]\<rparr>)) = 25200"
proof -
  let ?w = "world 25200 \<lparr>g_now = None, g_all = [], g_alive = []\<rparr> (\<lambda>i. Status 204)"
  let ?st = "(init_pool 0)\<lparr>dyn_penalty := [(''a'', 100), (''b'', 0)]\<rparr>"
  let ?st' = "maybe_refresh_dynamic ?w ?st"
  have h: "monotonic ?w (clock_calls ?st) - last_switch_ts ?st \<ge> 21600
           \<and> (\<exists>kv \<in> set (dyn_penalty ?st). snd kv > 0)"
    by (simp add: world_def init_pool_def)
  from idle_reset_spec [of ?w ?st, unfolded Let_def, THEN conjunct1, rule_format, OF h]
  have z: "\<forall>kv \<in> set (dyn_penalty ?st'). snd kv = 0"
    and k: "map fst (dyn_penalty ?st') = map fst (dyn_penalty ?st)"
    and t: "last_switch_ts ?st' = monotonic ?w (clock_calls ?st + 1)"
    by blast+
  from k have "map fst (dyn_penalty ?st') = [''a'', ''b'']" by (simp add: init_pool_def)
  then obtain x y where "dyn_penalty ?st' = [(''a'', x), (''b'', y)]"
    by (auto simp: map_eq_Cons_conv)
  with z have "dyn_penalty ?st' = [(''a'', 0), (''b'', 0)]" by simp
  moreover from t have "last_switch_ts ?st' = 25200" by (simp add: world_def)
  ultimately show ?thesis by (intro conjI)
qed

text \<open>The claim as the specification states it fails: with every penalty at zero and
  six hours elapsed, the call is not a no-op, it moves the idle timer.\<close>

theorem idle_reset_counterexample:
  "map snd (dyn_penalty ((init_pool 0)\<lparr>dyn_penalty := [(''a'', 0)]\<rparr>)) = [0]
   \<and> last_switch_ts ((init_pool 0)\<lparr>dyn_penalty := [(''a'', 0)]\<rparr>) = 0
   \<and> last_switch_ts (maybe_refresh_dynamic
        (world 21600 \<lparr>g_now = None, g_all = [], g_alive = []\<rparr> (\<lambda>i. Status 204))
        ((init_pool 0)\<lparr>dyn_penalty := [(''a'', 0)]\<rparr>)) = 21600"
  by (simp add: maybe_refresh_dynamic_def Let_def world_def init_pool_def
      REFRESH_IDLE_SECONDS_def)

subsection \<open>Deduplication of fetched entries\<close>

lemma str_nat_1: "str_nat (Suc 0) = ''1''"
  by (simp add: str_nat.simps)

lemma dedup_same_fingerprint:
  assumes "entry_name p \<noteq> []" and "entry_name q \<noteq> []"
    and "dumps (AList.delete ''name'' p) = Inr fp"
    and "dumps (AList.delete ''name'' q) = Inr fp"
  shows "dedup_merged dumps [p, q] = Inr [AList.update ''name'' (PStr (entry_name p)) p]"
  using assms by (simp add: dedup_merged_def Let_def)

lemma dedup_same_name:
  assumes "entry_name p \<noteq> []" and "entry_name q = entry_name p"
    and "dumps (AList.delete ''name'' p) = Inr fp"
    and "dumps (AList.delete ''name'' q) = Inr fq"
    and "fp \<noteq> fq"
  shows "dedup_merged dumps [p, q] =
           Inr [AList.update ''name'' (PStr (entry_name p)) p,
                AList.update ''name'' (PStr (entry_name p @ ''__dup1'')) q]"
  using assms by (auto simp: dedup_merged_def Let_def str_nat_1)

text \<open>
  C4, as the code has it. An entry whose configuration without the name has the
  fingerprint of an earlier entry is dropped whole: two entries named X with the same
  fingerprint give the single name X. The suffix goes to an entry with a new
  fingerprint whose name is taken: two entries named X with different fingerprints
  give X and X__dup1, the first occurrence keeping X.
\<close>

theorem dedup_spec:
  "entry_name p = n \<and> entry_name q = n \<and> n \<noteq> []
   \<and> dumps (AList.delete ''name'' p) = Inr fp \<and> dumps (AList.delete ''name'' q) = Inr fq \<longrightarrow>
     (fp = fq \<longrightarrow>
        dedup_merged dumps [p, q] = Inr [AList.update ''name'' (PStr n) p]
      \<and> map_sum id names_of (dedup_merged dumps [p, q]) = Inr [Some (PStr n)])
   \<and> (fp \<noteq> fq \<longrightarrow>
        dedup_merged dumps [p, q] =
          Inr [AList.update ''name'' (PStr n) p, AList.update ''name'' (PStr (n @ ''__dup1'')) q]
      \<and> map_sum id names_of (dedup_merged dumps [p, q])
          = Inr [Some (PStr n), Some (PStr (n @ ''__dup1''))])"
proof (intro impI conjI)
  assume a: "entry_name p = n \<and> entry_name q = n \<and> n \<noteq> []
   \<and> dumps (AList.delete ''name'' p) = Inr fp \<and> dumps (AList.delete ''name'' q) = Inr fq"
  {
    assume e: "fp = fq"
    from a e show s: "dedup_merged dumps [p, q] = Inr [AList.update ''name'' (PStr n) p]"
      using dedup_same_fingerprint [of p q dumps fp] by simp
    show "map_sum id names_of (dedup_merged dumps [p, q]) = Inr [Some (PStr n)]"
      unfolding s by (simp add: names_of_def update_conv')
  }
  {
    assume e: "fp \<noteq> fq"
    from a e show s: "dedup_merged dumps [p, q] =
          Inr [AList.update ''name'' (PStr n) p, AList.update ''name'' (PStr (n @ ''__dup1'')) q]"
      using dedup_same_name [of p q dumps fp fq] by simp
    show "map_sum id names_of (dedup_merged dumps [p, q])
          = Inr [Some (PStr n), Some (PStr (n @ ''__dup1''))]"
      unfolding s by (simp add: names_of_def update_conv')
  }
qed

lemma example_names:
  "entry_name (example_entry ''X'' s) = ''X''"
  by code_simp

text \<open>The witness: two entries named X on different servers, then on the same server.\<close>

theorem dedup_spec_witness:
  "map_sum id names_of
     (dedup_merged example_dumps [example_entry ''X'' ''a.example'', example_entry ''X'' ''b.example''])
     = Inr [Some (PStr ''X''), Some (PStr ''X__dup1'')]
   \<and> map_sum id names_of
     (dedup_merged example_dumps [example_entry ''X'' ''a.example'', example_entry ''X'' ''a.example''])
     = Inr [Some (PStr ''X'')]"
proof -
  let ?a = "example_entry ''X'' ''a.example''" and ?b = "example_entry ''X'' ''b.example''"
  have fa: "example_dumps (AList.delete ''name'' ?a) = Inr ''type:ss,server:a.example,port:443,''"
    by (simp add: example_dumps_def example_entry_def)
  have fb: "example_dumps (AList.delete ''name'' ?b) = Inr ''type:ss,server:b.example,port:443,''"
    by (simp add: example_dumps_def example_entry_def)
  have ne: "''type:ss,server:a.example,port:443,'' \<noteq> ''type:ss,server:b.example,port:443,''"
    by simp
  have 1: "map_sum id names_of (dedup_merged example_dumps [?a, ?b])
          = Inr [Some (PStr ''X''), Some (PStr (''X'' @ ''__dup1''))]"
    using dedup_spec [of ?a "''X''" ?b example_dumps _ _] example_names fa fb ne by blast
  have 2: "map_sum id names_of (dedup_merged example_dumps [?a, ?a]) = Inr [Some (PStr ''X'')]"
    using dedup_spec [of ?a "''X''" ?a example_dumps _ _] example_names fa by blast
  from 1 2 show ?thesis by simp
qed

text \<open>The claim as the specification states it fails for every serialiser: of two
  entries named X with the same configuration only the first is written.\<close>

theorem dedup_counterexample:
  "\<forall>dumps.
     dedup_merged dumps [example_entry ''X'' ''a.example'', example_entry ''X'' ''a.example'']
       = (case dumps (AList.delete ''name'' (example_entry ''X'' ''a.example'')) of
            Inl e \<Rightarrow> Inl e
          | Inr fp \<Rightarrow> Inr [example_entry ''X'' ''a.example''])
   \<and> map_sum id names_of
        (dedup_merged dumps [example_entry ''X'' ''a.example'', example_entry ''X'' ''a.example''])
       \<noteq> Inr [Some (PStr ''X''), Some (PStr ''X__dup1'')]"
proof (intro allI)
  fix dumps :: "(string \<times> pyval) list \<Rightarrow> error + string"
  let ?a = "example_entry ''X'' ''a.example''"
  have u: "AList.update ''name'' (PStr ''X'') ?a = ?a"
    by (simp add: example_entry_def)
  have r: "dedup_merged dumps [?a, ?a]
       = (case dumps (AList.delete ''name'' ?a) of Inl e \<Rightarrow> Inl e | Inr fp \<Rightarrow> Inr [?a])"
    by (simp add: dedup_merged_def Let_def example_names u split: sum.splits)
  show "dedup_merged dumps [?a, ?a]
       = (case dumps (AList.delete ''name'' ?a) of Inl e \<Rightarrow> Inl e | Inr fp \<Rightarrow> Inr [?a])
   \<and> map_sum id names_of (dedup_merged dumps [?a, ?a])
       \<noteq> Inr [Some (PStr ''X''), Some (PStr ''X__dup1'')]"
    unfolding r by (simp add: names_of_def split: sum.splits)
qed

subsection \<open>The best pick\<close>

lemma max_from_in: "max_from key m xs \<in> set (m # xs)"
  by (induction xs arbitrary: m) auto

lemma max_from_ge_start: "key m \<le> key (max_from key m xs)"
proof (induction xs arbitrary: m)
  case Nil
  then show ?case by simp
next
  case (Cons y ys)
  show ?case
  proof (cases "key m < key y")
    case True
    have "key m \<le> key y" using True by (rule less_imp_le)
    also have "key y \<le> key (max_from key y ys)" by (rule Cons.IH)
    finally show ?thesis using True by simp
  next
    case False
    have "key m \<le> key (max_from key m ys)" by (rule Cons.IH)
    then show ?thesis using False by simp
  qed
qed

lemma max_from_ge: "x \<in> set xs \<Longrightarrow> key x \<le> key (max_from key m xs)"
proof (induction xs arbitrary: m)
  case Nil
  then show ?case by simp
next
  case (Cons y ys)
  let ?m = "if key m < key y then y else m"
  show ?case
  proof (cases "x = y")
    case True
    have "key y \<le> key ?m" by (simp add: not_less)
    also have "\<dots> \<le> key (max_from key ?m ys)" by (rule max_from_ge_start)
    finally show ?thesis using True by simp
  next
    case False
    with Cons.prems have "x \<in> set ys" by simp
    from Cons.IH [OF this, of ?m] show ?thesis by simp
  qed
qed

lemma max_by_Some:
  assumes "xs \<noteq> []"
  shows "\<exists>b. max_by key xs = Some b \<and> b \<in> set xs \<and> (\<forall>x \<in> set xs. key x \<le> key b)"
proof -
  from assms obtain y ys where xs: "xs = y # ys" by (cases xs) auto
  let ?b = "max_from key y ys"
  have "max_by key xs = Some ?b" by (simp add: xs max_by_def)
  moreover have "?b \<in> set xs" unfolding xs by (rule max_from_in)
  moreover have "\<forall>x \<in> set xs. key x \<le> key ?b"
  proof
    fix x assume "x \<in> set xs"
    then consider "x = y" | "x \<in> set ys" unfolding xs by auto
    then show "key x \<le> key ?b"
    proof cases
      case 1
      then show ?thesis using max_from_ge_start [of key y ys] by simp
    next
      case 2
      then show ?thesis by (rule max_from_ge)
    qed
  qed
  ultimately show ?thesis by blast
qed

lemma pick_best_None: "pick_best alive_map dyn candidates = None \<longleftrightarrow> candidates = []"
  by (cases candidates) (simp_all add: pick_best_def max_by_def)

lemma pick_best_Some:
  assumes "pick_best alive_map dyn candidates = Some best"
  shows "best \<in> set candidates \<and>
         (\<forall>c \<in> set candidates.
           (alive_rank (alive_map c), score dyn c, c)
             \<le> (alive_rank (alive_map best), score dyn best, best))"
proof -
  have ne: "candidates \<noteq> []"
  proof
    assume "candidates = []"
    then have "pick_best alive_map dyn candidates = None" by (simp add: pick_best_None)
    with assms show False by simp
  qed
  from max_by_Some [OF ne, of "\<lambda>n. (alive_rank (alive_map n), score dyn n, n)"]
  obtain b where b: "max_by (\<lambda>n. (alive_rank (alive_map n), score dyn n, n)) candidates = Some b"
    "b \<in> set candidates"
    "\<forall>x \<in> set candidates. (alive_rank (alive_map x), score dyn x, x)
        \<le> (alive_rank (alive_map b), score dyn b, b)"
    by blast
  from b(1) assms have "b = best" unfolding pick_best_def by simp
  with b(2,3) show ?thesis by blast
qed


lemma key_le_iff:
  "((r1::nat, s1::real, n1::string) \<le> (r2, s2, n2)) \<longleftrightarrow>
     r1 < r2 \<or> (r1 = r2 \<and> (s1 < s2 \<or> (s1 = s2 \<and> n1 \<le> n2)))"
  unfolding less_eq_prod_simp by (metis less_eq_real_def nless_le order_refl)

lemma key_less_iff:
  "((r1::nat, s1::real, n1::string) < (r2, s2, n2)) \<longleftrightarrow>
     r1 < r2 \<or> (r1 = r2 \<and> (s1 < s2 \<or> (s1 = s2 \<and> n1 < n2)))"
  unfolding less_prod_simp less_eq_prod_simp by (metis less_eq_real_def nless_le order_refl)

lemma pick_best_pair:
  assumes "alive_rank (alive_map a) = alive_rank (alive_map b)"
    and "score dyn a = score dyn b" and "a < b"
  shows "pick_best alive_map dyn [a, b] = Some b" and "pick_best alive_map dyn [b, a] = Some b"
proof -
  have ab: "(alive_rank (alive_map a), score dyn a, a) < (alive_rank (alive_map b), score dyn b, b)"
    unfolding key_less_iff using assms by simp
  then have ba: "\<not> (alive_rank (alive_map b), score dyn b, b) < (alive_rank (alive_map a), score dyn a, a)"
    using less_asym by blast
  show "pick_best alive_map dyn [a, b] = Some b"
    unfolding pick_best_def max_by_def list.case max_from.simps using ab
    by (simp only: if_True)
  show "pick_best alive_map dyn [b, a] = Some b"
    unfolding pick_best_def max_by_def list.case max_from.simps using ba
    by (simp only: if_False)
qed

text \<open>
  C3, as the code has it. The best pick is a candidate whose triple (liveness rank,
  score, name) is greatest in the lexicographic order: a higher rank wins, alive ranking
  over unknown; at equal rank the higher score wins; at equal rank and score the
  \<^emph>\<open>greater\<close> name wins, wherever the two stand in the list.
\<close>

theorem pick_best_spec:
  "(candidates \<noteq> [] \<longrightarrow>
      (\<exists>best. pick_best alive_map dyn candidates = Some best \<and> best \<in> set candidates
         \<and> (\<forall>c \<in> set candidates.
               alive_rank (alive_map c) < alive_rank (alive_map best)
             \<or> (alive_rank (alive_map c) = alive_rank (alive_map best)
                \<and> (score dyn c < score dyn best
                   \<or> (score dyn c = score dyn best \<and> c \<le> best))))))
   \<and> alive_rank None < alive_rank (Some True)
   \<and> alive_rank (Some False) = alive_rank None
   \<and> (alive_rank (alive_map a) = alive_rank (alive_map b) \<and> score dyn a = score dyn b \<and> a < b
        \<longrightarrow> pick_best alive_map dyn [a, b] = Some b \<and> pick_best alive_map dyn [b, a] = Some b)"
proof (intro conjI impI)
  assume ne: "candidates \<noteq> []"
  then obtain best where b: "pick_best alive_map dyn candidates = Some best"
    using pick_best_None [of alive_map dyn candidates] by (cases "pick_best alive_map dyn candidates") simp_all
  from pick_best_Some [OF b]
  have "best \<in> set candidates"
    and "\<forall>c \<in> set candidates.
               alive_rank (alive_map c) < alive_rank (alive_map best)
             \<or> (alive_rank (alive_map c) = alive_rank (alive_map best)
                \<and> (score dyn c < score dyn best
                   \<or> (score dyn c = score dyn best \<and> c \<le> best)))"
    unfolding key_le_iff by blast+
  with b show "\<exists>best. pick_best alive_map dyn candidates = Some best \<and> best \<in> set candidates
         \<and> (\<forall>c \<in> set candidates.
               alive_rank (alive_map c) < alive_rank (alive_map best)
             \<or> (alive_rank (alive_map c) = alive_rank (alive_map best)
                \<and> (score dyn c < score dyn best
                   \<or> (score dyn c = score dyn best \<and> c \<le> best))))"
    by blast
next
  show "alive_rank None < alive_rank (Some True)" by (simp add: alive_rank_def)
  show "alive_rank (Some False) = alive_rank None" by (simp add: alive_rank_def)
next
  assume a: "alive_rank (alive_map a) = alive_rank (alive_map b) \<and> score dyn a = score dyn b \<and> a < b"
  then show "pick_best alive_map dyn [a, b] = Some b" by (intro pick_best_pair) simp_all
  from a show "pick_best alive_map dyn [b, a] = Some b" by (intro pick_best_pair) simp_all
qed

lemma parse_speednode_ab:
  "parse_name ''speednode-a'' = (''speednode'', ''speednode'', ''unknown'')"
  "parse_name ''speednode-b'' = (''speednode'', ''speednode'', ''unknown'')"
  by code_simp+

lemma score_speednode_ab: "score dyn ''speednode-a'' - score dyn ''speednode-b''
   = dict_get dyn ''speednode-b'' 0 - dict_get dyn ''speednode-a'' 0"
  by (simp add: score_def base_score_def parse_speednode_ab)

text \<open>The witness: two nodes of unknown liveness with the same score.\<close>

theorem pick_best_spec_witness:
  "pick_best (\<lambda>n. None) [] [''speednode-a'', ''speednode-b''] = Some ''speednode-b''
   \<and> pick_best (\<lambda>n. None) [] [''speednode-b'', ''speednode-a''] = Some ''speednode-b''"
proof -
  have h: "alive_rank ((\<lambda>n. None) ''speednode-a'') = alive_rank ((\<lambda>n. None) ''speednode-b'')
      \<and> score [] ''speednode-a'' = score [] ''speednode-b'' \<and> ''speednode-a'' < ''speednode-b''"
    using score_speednode_ab [of "[]"] by (simp add: dict_get_def)
  from pick_best_spec [of "[]" "\<lambda>n. None" "[]" "''speednode-a''" "''speednode-b''",
      THEN conjunct2, THEN conjunct2, THEN conjunct2, rule_format, OF h]
  show ?thesis .
qed

text \<open>The claim as the specification states it fails: of two live candidates with the
  same score the first in the alphabet is passed over for the second.\<close>

theorem pick_best_counterexample:
  "alive_rank (Some True) = alive_rank (Some True)
   \<and> score [(''speednode-a'', 0), (''speednode-b'', 0)] ''speednode-a''
       = score [(''speednode-a'', 0), (''speednode-b'', 0)] ''speednode-b''
   \<and> ''speednode-a'' < ''speednode-b''
   \<and> pick_best (\<lambda>n. Some True) [(''speednode-a'', 0), (''speednode-b'', 0)]
        [''speednode-a'', ''speednode-b''] = Some ''speednode-b''"
proof -
  let ?dyn = "[(''speednode-a'', 0), (''speednode-b'', 0)] :: (string \<times> real) list"
  have s: "score ?dyn ''speednode-a'' = score ?dyn ''speednode-b''"
    using score_speednode_ab [of ?dyn] by (simp add: dict_get_def)
  have l: "''speednode-a'' < ''speednode-b''" by simp
  have "(alive_rank (Some True), score ?dyn ''speednode-a'', ''speednode-a'')
          < (alive_rank (Some True), score ?dyn ''speednode-b'', ''speednode-b'')"
    unfolding key_less_iff using s l by simp
  then have "pick_best (\<lambda>n. Some True) ?dyn [''speednode-a'', ''speednode-b''] = Some ''speednode-b''"
    unfolding pick_best_def max_by_def list.case max_from.simps
    by (simp only: if_True)
  with s l show ?thesis by simp
qed

subsection \<open>Bounds on the exponential\<close>

lemma exp_taylor_bounds:
  fixes x :: real
  assumes "0 \<le> x" and "x \<le> 1"
  shows "(\<Sum>m<n. x ^ m / fact m) \<le> exp x"
    and "exp x \<le> (\<Sum>m<n. x ^ m / fact m) + 3 * x ^ n / fact n"
proof -
  from Maclaurin_exp_le [of x n] obtain t where
    t: "\<bar>t\<bar> \<le> \<bar>x\<bar>" and e: "exp x = (\<Sum>m<n. x ^ m / fact m) + (exp t / fact n) * x ^ n"
    by blast
  have xn: "0 \<le> x ^ n / fact n" using assms(1) by simp
  have "0 \<le> (exp t / fact n) * x ^ n" using assms(1) by simp
  with e show "(\<Sum>m<n. x ^ m / fact m) \<le> exp x" by linarith
  have "t \<le> 1" using t assms by linarith
  then have "exp t \<le> exp 1" by simp
  also have "\<dots> \<le> 3" by (rule exp_le)
  finally have "exp t * (x ^ n / fact n) \<le> 3 * (x ^ n / fact n)"
    using xn by (rule mult_right_mono)
  with e show "exp x \<le> (\<Sum>m<n. x ^ m / fact m) + 3 * x ^ n / fact n"
    by (simp add: field_simps)
qed

lemma exp_0428: "1.53418 \<le> exp (0.428::real)" "exp (0.428::real) \<le> 1.53419"
proof -
  have s: "(\<Sum>m<8. (0.428::real) ^ m / fact m) = 1 + 0.428 + 0.428^2/2 + 0.428^3/6 + 0.428^4/24
      + 0.428^5/120 + 0.428^6/720 + 0.428^7/5040"
    by (simp add: lessThan_nat_numeral lessThan_Suc fact_numeral)
  have lo: "(1.53418::real) \<le> 1 + 0.428 + 0.428^2/2 + 0.428^3/6 + 0.428^4/24
      + 0.428^5/120 + 0.428^6/720 + 0.428^7/5040"
    by (simp add: power_numeral_reduce)
  have hi: "1 + 0.428 + 0.428^2/2 + 0.428^3/6 + 0.428^4/24
      + 0.428^5/120 + 0.428^6/720 + 0.428^7/5040 + 3 * 0.428^8 / fact 8 \<le> (1.53419::real)"
    by (simp add: fact_numeral power_numeral_reduce)
  from exp_taylor_bounds(1) [of "0.428" 8] s lo show "1.53418 \<le> exp (0.428::real)" by simp
  from exp_taylor_bounds(2) [of "0.428" 8] s hi show "exp (0.428::real) \<le> 1.53419" by simp
qed


lemma exp_052775: "1.69511 \<le> exp (0.52775::real)" "exp (0.52775::real) \<le> 1.69512"
proof -
  have s: "(\<Sum>m<8. (0.52775::real) ^ m / fact m) = 1 + 0.52775 + 0.52775^2/2 + 0.52775^3/6
      + 0.52775^4/24 + 0.52775^5/120 + 0.52775^6/720 + 0.52775^7/5040"
    by (simp add: lessThan_nat_numeral lessThan_Suc fact_numeral)
  have lo: "(1.69511::real) \<le> 1 + 0.52775 + 0.52775^2/2 + 0.52775^3/6
      + 0.52775^4/24 + 0.52775^5/120 + 0.52775^6/720 + 0.52775^7/5040"
    by (simp add: power_numeral_reduce)
  have hi: "1 + 0.52775 + 0.52775^2/2 + 0.52775^3/6
      + 0.52775^4/24 + 0.52775^5/120 + 0.52775^6/720 + 0.52775^7/5040
      + 3 * 0.52775^8 / fact 8 \<le> (1.69512::real)"
    by (simp add: fact_numeral power_numeral_reduce)
  from exp_taylor_bounds(1) [of "0.52775" 8] s lo show "1.69511 \<le> exp (0.52775::real)" by simp
  from exp_taylor_bounds(2) [of "0.52775" 8] s hi show "exp (0.52775::real) \<le> 1.69512" by simp
qed

lemma exp_3424: "30.69 \<le> exp (3.424::real)" "exp (3.424::real) \<le> 30.70"
proof -
  have e: "exp (3.424::real) = exp 0.428 ^ 8"
    using exp_of_nat_mult [of 8 "0.428::real"] by simp
  have "(30.69::real) \<le> 1.53418 ^ 8" by (simp add: power_numeral_reduce)
  also have "\<dots> \<le> exp (0.428::real) ^ 8"
    by (rule power_mono) (use exp_0428(1) in simp_all)
  finally show "30.69 \<le> exp (3.424::real)" unfolding e .
  have "exp (0.428::real) ^ 8 \<le> 1.53419 ^ 8"
    by (rule power_mono) (use exp_0428(2) in simp_all)
  also have "\<dots> \<le> (30.70::real)" by (simp add: power_numeral_reduce)
  finally show "exp (3.424::real) \<le> 30.70" unfolding e .
qed

lemma exp_2111: "8.256 \<le> exp (2.111::real)" "exp (2.111::real) \<le> 8.257"
proof -
  have e: "exp (2.111::real) = exp 0.52775 ^ 4"
    using exp_of_nat_mult [of 4 "0.52775::real"] by simp
  have "(8.256::real) \<le> 1.69511 ^ 4" by (simp add: power_numeral_reduce)
  also have "\<dots> \<le> exp (0.52775::real) ^ 4"
    by (rule power_mono) (use exp_052775(1) in simp_all)
  finally show "8.256 \<le> exp (2.111::real)" unfolding e .
  have "exp (0.52775::real) ^ 4 \<le> 1.69512 ^ 4"
    by (rule power_mono) (use exp_052775(2) in simp_all)
  also have "\<dots> \<le> (8.257::real)" by (simp add: power_numeral_reduce)
  finally show "exp (2.111::real) \<le> 8.257" unfolding e .
qed

subsection \<open>The base score of two tagged nodes\<close>

lemma sigmoid_2111: "89.19 < 100 * sigmoid 2.111" "100 * sigmoid 2.111 < 89.20"
proof -
  let ?E = "exp (2.111::real)"
  have pos: "0 < ?E + 1" by (simp add: add_pos_pos)
  have s: "100 * sigmoid 2.111 = (100 * ?E) / (?E + 1)"
    by (simp add: sigmoid_def exp_minus field_simps)
  have "89.19 * (?E + 1) < 100 * ?E" using exp_2111(1) by simp
  then have "89.19 < (100 * ?E) / (?E + 1)"
    using pos by (simp only: pos_less_divide_eq)
  then show "89.19 < 100 * sigmoid 2.111" unfolding s .
  have "100 * ?E < 89.20 * (?E + 1)" using exp_2111(2) by simp
  then have "(100 * ?E) / (?E + 1) < 89.20"
    using pos by (simp only: pos_divide_less_eq)
  then show "100 * sigmoid 2.111 < 89.20" unfolding s .
qed

lemma sigmoid_m3424: "3.15 < 100 * sigmoid (- 3.424)" "100 * sigmoid (- 3.424) < 3.16"
proof -
  let ?E = "exp (3.424::real)"
  have pos: "0 < ?E + 1" by (simp add: add_pos_pos)
  have s: "100 * sigmoid (- 3.424) = 100 / (?E + 1)"
    by (simp add: sigmoid_def exp_minus field_simps)
  have "3.15 * (?E + 1) < 100" using exp_3424(2) by simp
  then have "3.15 < 100 / (?E + 1)"
    using pos by (simp only: pos_less_divide_eq)
  then show "3.15 < 100 * sigmoid (- 3.424)" unfolding s .
  have "100 < 3.16 * (?E + 1)" using exp_3424(1) by simp
  then have "100 / (?E + 1) < 3.16"
    using pos by (simp only: pos_divide_less_eq)
  then show "100 * sigmoid (- 3.424) < 3.16" unfolding s .
qed

lemma base_score_business_low:
  "parse_name a = (''tagged'', line_business, risk_low) \<Longrightarrow>
   base_score a = 100 * sigmoid (- 1.711 + 1.102 + 1.889 + 0.831)"
  by (simp add: base_score_def BASE_BIAS_def KIND_W_def LINE_W_def RISK_W_def dict_get_def
      line_business_def risk_low_def risk_high_def)

lemma base_score_datacenter_high:
  "parse_name b = (''tagged'', line_datacenter, risk_high) \<Longrightarrow>
   base_score b = 100 * sigmoid (- 1.711 + 1.102 - 1.534 - 1.281)"
  by (simp add: base_score_def BASE_BIAS_def KIND_W_def LINE_W_def RISK_W_def dict_get_def
      line_business_def line_datacenter_def line_native_home_def line_home_def risk_high_def)


lemma pick_best_two:
  assumes "(alive_rank (alive_map a), score dyn a, a) < (alive_rank (alive_map b), score dyn b, b)"
  shows "pick_best alive_map dyn [a, b] = Some b" and "pick_best alive_map dyn [b, a] = Some b"
proof -
  from assms
  have ba: "\<not> (alive_rank (alive_map b), score dyn b, b) < (alive_rank (alive_map a), score dyn a, a)"
    using less_asym by blast
  show "pick_best alive_map dyn [a, b] = Some b"
    unfolding pick_best_def max_by_def list.case max_from.simps using assms
    by (simp only: if_True)
  show "pick_best alive_map dyn [b, a] = Some b"
    unfolding pick_best_def max_by_def list.case max_from.simps using ba
    by (simp only: if_False)
qed

lemma parse_example_nodes:
  "parse_name node_business_low = (''tagged'', line_business, risk_low)"
  "parse_name node_datacenter_high = (''tagged'', line_datacenter, risk_high)"
  by code_simp+




subsection \<open>The ledger under its operations\<close>

lemma dict_get_update:
  "dict_get (AList.update k v d) m dflt = (if m = k then v else dict_get d m dflt)"
  by (simp add: dict_get_def update_conv')

lemma dict_get_setdefault: "dict_get (setdefault k dflt d) m dflt = dict_get d m dflt"
  by (cases "map_of d k"; cases "map_of d m")
     (auto simp: dict_get_def setdefault_def map_add_def split: option.splits)

lemma dict_get_register:
  "dict_get (dyn_penalty (register_candidates cs st)) m 0 = dict_get (dyn_penalty st) m 0"
proof -
  have "dict_get (foldl (\<lambda>d n. setdefault n 0 d) d cs) m 0 = dict_get d m (0::real)" for d
    by (induction cs arbitrary: d) (simp_all add: dict_get_setdefault)
  then show ?thesis by (simp add: register_candidates_def)
qed

lemma score_register:
  "score (dyn_penalty (register_candidates cs st)) n = score (dyn_penalty st) n"
  by (simp add: score_def dict_get_register)

lemma register_frame:
  "events (register_candidates cs st) = events st"
  "put_calls (register_candidates cs st) = put_calls st"
  "last_switch_ts (register_candidates cs st) = last_switch_ts st"
  "lock_held (register_candidates cs st) = lock_held st"
  "probe_calls (register_candidates cs st) = probe_calls st"
  "group_calls (register_candidates cs st) = group_calls st"
  "clock_calls (register_candidates cs st) = clock_calls st"
  "init_calls (register_candidates cs st) = init_calls st"
  by (simp_all add: register_candidates_def)

lemma penalty_amount_cases:
  "penalty_amount kind = 100 \<or> penalty_amount kind = 60 \<or> penalty_amount kind = 30
   \<or> penalty_amount kind = 5"
  by (simp add: penalty_amount_def PENALTY_PREFLIGHT_def PENALTY_RISK_def PENALTY_PROXY_def
      PENALTY_MAIL_def)

lemma penalty_amount_pos: "0 < penalty_amount kind"
  using penalty_amount_cases [of kind] by auto

lemma dict_get_apply_penalty:
  "dict_get (dyn_penalty (apply_penalty n kind st)) m 0
     = dict_get (dyn_penalty st) m 0 + (if m = n then penalty_amount kind else 0)"
  by (simp add: apply_penalty_def dict_get_update)

lemma apply_penalty_mono:
  "dict_get (dyn_penalty st) m 0 \<le> dict_get (dyn_penalty (apply_penalty n kind st)) m 0"
  using penalty_amount_pos [of kind] by (simp add: dict_get_apply_penalty)

lemma apply_penalty_frame:
  "events (apply_penalty n kind st) = events st"
  "put_calls (apply_penalty n kind st) = put_calls st"
  "last_switch_ts (apply_penalty n kind st) = last_switch_ts st"
  "lock_held (apply_penalty n kind st) = lock_held st"
  "probe_calls (apply_penalty n kind st) = probe_calls st"
  "group_calls (apply_penalty n kind st) = group_calls st"
  "clock_calls (apply_penalty n kind st) = clock_calls st"
  "init_calls (apply_penalty n kind st) = init_calls st"
  by (simp_all add: apply_penalty_def)

subsection \<open>Frames of the steps of the loop\<close>

lemma preflight_frame:
  assumes "preflight w st = ((ok, details), st')"
  shows "\<exists>k \<le> length PREFLIGHT_URLS. st' = st\<lparr>probe_calls := probe_calls st + k\<rparr>"
  using preflight_from_spec [OF assms [unfolded preflight_def]] by blast

lemma get_group_frame: "snd (get_group w st) = st\<lparr>group_calls := group_calls st + 1\<rparr>"
  by (simp add: get_group_def Let_def split: option.splits)

lemma sticky_Some:
  assumes "sticky w now cands st = (Some n, st')"
  shows "now = Some n" "n \<noteq> []" "n \<in> set cands" "SCORE_THRESHOLD \<le> score (dyn_penalty st) n"
    "\<exists>ds. preflight w st = ((True, ds), st')"
  using assms by (auto simp: sticky_def split: option.splits if_splits prod.splits)

lemma sticky_None:
  assumes "sticky w now cands st = (None, st')"
  shows "st' = st \<or>
    (\<exists>n ds st1. now = Some n \<and> preflight w st = ((False, ds), st1)
        \<and> st' = apply_penalty n ''preflight'' st1)"
  using assms by (auto simp: sticky_def split: option.splits if_splits prod.splits)

lemma switch_to_Inl:
  assumes "switch_to w now best st = (Inl e, st')"
  shows "st' = st\<lparr>put_calls := put_calls st + 1, events := events st @ [Select best (dyn_penalty st)]\<rparr>"
  using assms
  by (auto simp: switch_to_def select_group_def Let_def split: if_splits prod.splits sum.splits)

lemma switch_to_Inr:
  assumes "switch_to w now best st = (Inr now1, st')"
  shows "now1 = Some best"
    and "(now = Some best \<and> st' = st) \<or>
         (now \<noteq> Some best \<and>
          st' = st\<lparr>put_calls := put_calls st + 1, events := events st @ [Select best (dyn_penalty st)],
                   last_switch_ts := monotonic w (clock_calls st),
                   clock_calls := clock_calls st + 1\<rparr>)"
  using assms
  by (auto simp: switch_to_def select_group_def Let_def split: if_splits prod.splits sum.splits)


subsection \<open>One iteration of the loop\<close>

lemma ensure_loop_cases [consumes 1, case_names GroupError NoCandidates Kept Empty Exhausted
    PutFailed Done Retry]:
  assumes "ensure_loop (Suc fuel) w st = Some (r, st')"
  obtains
    (GroupError) e where "get_group w st = (Inl e, st')" "r = Raises e"
  | (NoCandidates) now alive_map where "get_group w st = (Inr (now, [], alive_map), st')"
      "r = Raises NoCandidates"
  | (Kept) now cs alive_map st1 kept where "get_group w st = (Inr (now, cs, alive_map), st1)"
      "cs \<noteq> []"
      "sticky w now (usable_candidates cs alive_map) (register_candidates cs st1) = (Some kept, st')"
      "r = Returns kept"
  | (Empty) now cs alive_map st1 where "get_group w st = (Inr (now, cs, alive_map), st1)"
      "cs \<noteq> []"
      "sticky w now (usable_candidates cs alive_map) (register_candidates cs st1) = (None, st')"
      "pick_best alive_map (dyn_penalty st') (usable_candidates cs alive_map) = None"
      "r = Raises EmptySequence"
  | (Exhausted) now cs alive_map st1 best where "get_group w st = (Inr (now, cs, alive_map), st1)"
      "cs \<noteq> []"
      "sticky w now (usable_candidates cs alive_map) (register_candidates cs st1) = (None, st')"
      "pick_best alive_map (dyn_penalty st') (usable_candidates cs alive_map) = Some best"
      "score (dyn_penalty st') best < SCORE_THRESHOLD"
      "r = Raises (PoolExhausted (score (dyn_penalty st') best))"
  | (PutFailed) now cs alive_map st1 st3 best e where
      "get_group w st = (Inr (now, cs, alive_map), st1)" "cs \<noteq> []"
      "sticky w now (usable_candidates cs alive_map) (register_candidates cs st1) = (None, st3)"
      "pick_best alive_map (dyn_penalty st3) (usable_candidates cs alive_map) = Some best"
      "SCORE_THRESHOLD \<le> score (dyn_penalty st3) best"
      "switch_to w now best st3 = (Inl e, st')"
      "r = Raises e"
  | (Done) now cs alive_map st1 st3 best now1 st4 details where
      "get_group w st = (Inr (now, cs, alive_map), st1)" "cs \<noteq> []"
      "sticky w now (usable_candidates cs alive_map) (register_candidates cs st1) = (None, st3)"
      "pick_best alive_map (dyn_penalty st3) (usable_candidates cs alive_map) = Some best"
      "SCORE_THRESHOLD \<le> score (dyn_penalty st3) best"
      "switch_to w now best st3 = (Inr now1, st4)"
      "preflight w st4 = ((True, details), st')"
      "r = Returns (the now1)"
  | (Retry) now cs alive_map st1 st3 best now1 st4 details st5 where
      "get_group w st = (Inr (now, cs, alive_map), st1)" "cs \<noteq> []"
      "sticky w now (usable_candidates cs alive_map) (register_candidates cs st1) = (None, st3)"
      "pick_best alive_map (dyn_penalty st3) (usable_candidates cs alive_map) = Some best"
      "SCORE_THRESHOLD \<le> score (dyn_penalty st3) best"
      "switch_to w now best st3 = (Inr now1, st4)"
      "preflight w st4 = ((False, details), st5)"
      "ensure_loop fuel w
         (if truthy now1 then apply_penalty (the now1) ''preflight'' st5 else st5) = Some (r, st')"
  using assms
  by (simp add: ensure_loop.simps(2) Let_def not_less
      split: prod.splits sum.splits option.splits if_splits bool.splits)


subsection \<open>What the loop preserves\<close>

text \<open>The steps between the head of an iteration and its best pick.\<close>

lemma to_pick_frame:
  assumes g: "get_group w st = (Inr (now, cs, alive_map), st1)"
    and s: "sticky w now cands (register_candidates cs st1) = (None, st3)"
  shows "events st3 = events st" "put_calls st3 = put_calls st"
    "lock_held st3 = lock_held st"
    "dict_get (dyn_penalty st) m 0 \<le> dict_get (dyn_penalty st3) m 0"
proof -
  from g have st1: "st1 = st\<lparr>group_calls := group_calls st + 1\<rparr>"
    using get_group_frame [of w st] by simp
  from sticky_None [OF s] consider "st3 = register_candidates cs st1"
    | n ds st2 where "preflight w (register_candidates cs st1) = ((False, ds), st2)"
        "st3 = apply_penalty n ''preflight'' st2"
    by blast
  then have "events st3 = events st \<and> put_calls st3 = put_calls st \<and> lock_held st3 = lock_held st
    \<and> dict_get (dyn_penalty st) m 0 \<le> dict_get (dyn_penalty st3) m 0"
  proof cases
    case 1
    then show ?thesis by (simp add: st1 register_frame dict_get_register)
  next
    case 2
    from preflight_frame [OF 2(1)] obtain k where
      "st2 = (register_candidates cs st1)\<lparr>probe_calls := probe_calls (register_candidates cs st1) + k\<rparr>"
      by blast
    then have "events st2 = events st" "put_calls st2 = put_calls st" "lock_held st2 = lock_held st"
      "dict_get (dyn_penalty st2) m 0 = dict_get (dyn_penalty st) m 0"
      by (simp_all add: st1 register_frame dict_get_register)
    then show ?thesis
      using apply_penalty_mono [of st2 m n "''preflight''"]
      by (simp add: 2(2) apply_penalty_frame)
  qed
  then show "events st3 = events st" "put_calls st3 = put_calls st"
    "lock_held st3 = lock_held st"
    "dict_get (dyn_penalty st) m 0 \<le> dict_get (dyn_penalty st3) m 0"
    by simp_all
qed

lemma ensure_loop_mono:
  "ensure_loop fuel w st = Some (r, st') \<Longrightarrow>
   dict_get (dyn_penalty st) m 0 \<le> dict_get (dyn_penalty st') m 0"
proof (induction fuel arbitrary: st)
  case 0
  then show ?case by simp
next
  case (Suc fuel)
  from Suc.prems show ?case
  proof (cases rule: ensure_loop_cases)
    case (GroupError e)
    then show ?thesis using get_group_frame [of w st] by simp
  next
    case (NoCandidates now alive_map)
    then show ?thesis using get_group_frame [of w st] by simp
  next
    case (Kept now cs alive_map st1 kept)
    from sticky_Some(5) [OF Kept(3)] obtain ds where
      "preflight w (register_candidates cs st1) = ((True, ds), st')" by blast
    from preflight_frame [OF this] Kept(1) get_group_frame [of w st]
    show ?thesis by (auto simp: dict_get_register)
  next
    case (Empty now cs alive_map st1)
    then show ?thesis using to_pick_frame(4) by blast
  next
    case (Exhausted now cs alive_map st1 best)
    then show ?thesis using to_pick_frame(4) by blast
  next
    case (PutFailed now cs alive_map st1 st3 best e)
    from switch_to_Inl [OF PutFailed(6)] have "dyn_penalty st' = dyn_penalty st3" by simp
    with to_pick_frame(4) [OF PutFailed(1,3)] show ?thesis by simp
  next
    case (Done now cs alive_map st1 st3 best now1 st4 details)
    from switch_to_Inr(2) [OF Done(6)] have "dyn_penalty st4 = dyn_penalty st3" by auto
    moreover from preflight_frame [OF Done(7)] have "dyn_penalty st' = dyn_penalty st4" by auto
    ultimately show ?thesis using to_pick_frame(4) [OF Done(1,3)] by simp
  next
    case (Retry now cs alive_map st1 st3 best now1 st4 details st5)
    from switch_to_Inr(2) [OF Retry(6)] have "dyn_penalty st4 = dyn_penalty st3" by auto
    moreover from preflight_frame [OF Retry(7)] have "dyn_penalty st5 = dyn_penalty st4" by auto
    ultimately have a: "dict_get (dyn_penalty st) m 0 \<le> dict_get (dyn_penalty st5) m 0"
      using to_pick_frame(4) [OF Retry(1,3)] by simp
    let ?next = "if truthy now1 then apply_penalty (the now1) ''preflight'' st5 else st5"
    have "dict_get (dyn_penalty st5) m 0 \<le> dict_get (dyn_penalty ?next) m 0"
      using apply_penalty_mono by simp
    also have "\<dots> \<le> dict_get (dyn_penalty st') m 0" by (rule Suc.IH [OF Retry(8)])
    finally show ?thesis using a by simp
  qed
qed


lemma ensure_loop_events:
  "ensure_loop fuel w st = Some (r, st') \<Longrightarrow>
   \<exists>new. events st' = events st @ new
        \<and> (\<forall>e \<in> set new. \<exists>n d. e = Select n d \<and> SCORE_THRESHOLD \<le> score d n)
        \<and> put_calls st' = put_calls st + length new"
proof (induction fuel arbitrary: st)
  case 0
  then show ?case by simp
next
  case (Suc fuel)
  let ?P = "\<lambda>a b. \<exists>new. events b = events a @ new
        \<and> (\<forall>e \<in> set new. \<exists>n d. e = Select n d \<and> SCORE_THRESHOLD \<le> score d n)
        \<and> put_calls b = put_calls a + length new"
  have same: "?P a b" if "events b = events a" "put_calls b = put_calls a" for a b
    using that by simp
  from Suc.prems show ?case
  proof (cases rule: ensure_loop_cases)
    case (GroupError e)
    then show ?thesis using get_group_frame [of w st] by (intro same) simp_all
  next
    case (NoCandidates now alive_map)
    then show ?thesis using get_group_frame [of w st] by (intro same) simp_all
  next
    case (Kept now cs alive_map st1 kept)
    from sticky_Some(5) [OF Kept(3)] obtain ds where
      "preflight w (register_candidates cs st1) = ((True, ds), st')" by blast
    from preflight_frame [OF this] Kept(1) get_group_frame [of w st]
    show ?thesis by (intro same) (auto simp: register_frame)
  next
    case (Empty now cs alive_map st1)
    then show ?thesis using to_pick_frame(1,2) by (intro same) blast+
  next
    case (Exhausted now cs alive_map st1 best)
    then show ?thesis using to_pick_frame(1,2) by (intro same) blast+
  next
    case (PutFailed now cs alive_map st1 st3 best e)
    from switch_to_Inl [OF PutFailed(6)] to_pick_frame(1,2) [OF PutFailed(1,3)] PutFailed(5)
    show ?thesis
      by (intro exI [of _ "[Select best (dyn_penalty st3)]"]) simp
  next
    case (Done now cs alive_map st1 st3 best now1 st4 details)
    from preflight_frame [OF Done(7)]
    have e: "events st' = events st4" "put_calls st' = put_calls st4" by auto
    from switch_to_Inr(2) [OF Done(6)] show ?thesis
    proof
      assume "now = Some best \<and> st4 = st3"
      with e to_pick_frame(1,2) [OF Done(1,3)] show ?thesis by (intro same) simp_all
    next
      assume "now \<noteq> Some best \<and>
          st4 = st3\<lparr>put_calls := put_calls st3 + 1,
                   events := events st3 @ [Select best (dyn_penalty st3)],
                   last_switch_ts := monotonic w (clock_calls st3),
                   clock_calls := clock_calls st3 + 1\<rparr>"
      with e to_pick_frame(1,2) [OF Done(1,3)] Done(5) show ?thesis
        by (intro exI [of _ "[Select best (dyn_penalty st3)]"]) simp
    qed
  next
    case (Retry now cs alive_map st1 st3 best now1 st4 details st5)
    let ?next = "if truthy now1 then apply_penalty (the now1) ''preflight'' st5 else st5"
    from preflight_frame [OF Retry(7)]
    have e: "events ?next = events st4" "put_calls ?next = put_calls st4"
      by (auto simp: apply_penalty_frame)
    from Suc.IH [OF Retry(8)] obtain new where new: "events st' = events ?next @ new"
      "\<forall>e \<in> set new. \<exists>n d. e = Select n d \<and> SCORE_THRESHOLD \<le> score d n"
      "put_calls st' = put_calls ?next + length new"
      by blast
    from switch_to_Inr(2) [OF Retry(6)] show ?thesis
    proof
      assume "now = Some best \<and> st4 = st3"
      with e new to_pick_frame(1,2) [OF Retry(1,3)] show ?thesis
        by (intro exI [of _ new]) simp
    next
      assume "now \<noteq> Some best \<and>
          st4 = st3\<lparr>put_calls := put_calls st3 + 1,
                   events := events st3 @ [Select best (dyn_penalty st3)],
                   last_switch_ts := monotonic w (clock_calls st3),
                   clock_calls := clock_calls st3 + 1\<rparr>"
      with e new to_pick_frame(1,2) [OF Retry(1,3)] Retry(5) show ?thesis
        by (intro exI [of _ "Select best (dyn_penalty st3) # new"]) simp
    qed
  qed
qed

lemma ensure_loop_returns:
  "ensure_loop fuel w st = Some (Returns n, st') \<Longrightarrow> SCORE_THRESHOLD \<le> score (dyn_penalty st') n"
proof (induction fuel arbitrary: st)
  case 0
  then show ?case by simp
next
  case (Suc fuel)
  from Suc.prems show ?case
  proof (cases rule: ensure_loop_cases)
    case (Kept now cs alive_map st1 kept)
    from sticky_Some(5) [OF Kept(3)] obtain ds where
      "preflight w (register_candidates cs st1) = ((True, ds), st')" by blast
    from preflight_frame [OF this]
    have "dyn_penalty st' = dyn_penalty (register_candidates cs st1)" by auto
    with sticky_Some(4) [OF Kept(3)] Kept(4) show ?thesis by simp
  next
    case (Done now cs alive_map st1 st3 best now1 st4 details)
    from switch_to_Inr [OF Done(6)] have "now1 = Some best" "dyn_penalty st4 = dyn_penalty st3"
      by auto
    moreover from preflight_frame [OF Done(7)] have "dyn_penalty st' = dyn_penalty st4" by auto
    ultimately show ?thesis using Done(5,8) by simp
  next
    case (Retry now cs alive_map st1 st3 best now1 st4 details st5)
    then show ?thesis using Suc.IH by blast
  qed simp_all
qed

lemma ensure_loop_exhausted:
  "ensure_loop fuel w st = Some (Raises (PoolExhausted x), st') \<Longrightarrow> x < SCORE_THRESHOLD"
proof (induction fuel arbitrary: st)
  case 0
  then show ?case by simp
next
  case (Suc fuel)
  from Suc.prems show ?case
  proof (cases rule: ensure_loop_cases)
    case (GroupError e)
    then show ?thesis by (auto simp: get_group_def Let_def split: option.splits)
  next
    case (PutFailed now cs alive_map st1 st3 best e)
    then show ?thesis
      by (auto simp: switch_to_def select_group_def Let_def split: if_splits)
  next
    case (Retry now cs alive_map st1 st3 best now1 st4 details st5)
    then show ?thesis using Suc.IH by blast
  qed simp_all
qed

lemma ensure_loop_lock:
  "ensure_loop fuel w st = Some (r, st') \<Longrightarrow> lock_held st' = lock_held st \<and> r \<noteq> Blocks"
proof (induction fuel arbitrary: st)
  case 0
  then show ?case by simp
next
  case (Suc fuel)
  from Suc.prems show ?case
  proof (cases rule: ensure_loop_cases)
    case (GroupError e)
    then show ?thesis using get_group_frame [of w st] by simp
  next
    case (NoCandidates now alive_map)
    then show ?thesis using get_group_frame [of w st] by simp
  next
    case (Kept now cs alive_map st1 kept)
    from sticky_Some(5) [OF Kept(3)] obtain ds where
      "preflight w (register_candidates cs st1) = ((True, ds), st')" by blast
    from preflight_frame [OF this] Kept(1,4) get_group_frame [of w st]
    show ?thesis by (auto simp: register_frame)
  next
    case (Empty now cs alive_map st1)
    then show ?thesis using to_pick_frame(3) by blast
  next
    case (Exhausted now cs alive_map st1 best)
    then show ?thesis using to_pick_frame(3) by blast
  next
    case (PutFailed now cs alive_map st1 st3 best e)
    from switch_to_Inl [OF PutFailed(6)] to_pick_frame(3) [OF PutFailed(1,3)] PutFailed(7)
    show ?thesis by simp
  next
    case (Done now cs alive_map st1 st3 best now1 st4 details)
    from switch_to_Inr(2) [OF Done(6)] have "lock_held st4 = lock_held st3" by auto
    moreover from preflight_frame [OF Done(7)] have "lock_held st' = lock_held st4" by auto
    ultimately show ?thesis using to_pick_frame(3) [OF Done(1,3)] Done(8) by simp
  next
    case (Retry now cs alive_map st1 st3 best now1 st4 details st5)
    from switch_to_Inr(2) [OF Retry(6)] have "lock_held st4 = lock_held st3" by auto
    moreover from preflight_frame [OF Retry(7)] have "lock_held st5 = lock_held st4" by auto
    ultimately have "lock_held (if truthy now1 then apply_penalty (the now1) ''preflight'' st5
        else st5) = lock_held st"
      using to_pick_frame(3) [OF Retry(1,3)] by (simp add: apply_penalty_frame)
    with Suc.IH [OF Retry(8)] show ?thesis by simp
  qed
qed

lemma ensure_loop_refreshes:
  assumes "ensure_loop fuel w st = Some (r, st')"
  shows "refreshes st' = refreshes st"
proof -
  from ensure_loop_events [OF assms] obtain new where
    "events st' = events st @ new" "\<forall>e \<in> set new. \<exists>n d. e = Select n d \<and> SCORE_THRESHOLD \<le> score d n"
    by blast
  moreover then have "filter (\<lambda>e. e = Refreshed) new = []"
    by (auto simp: filter_empty_conv)
  ultimately show ?thesis by (simp add: refreshes_def)
qed

subsection \<open>Scores of the example nodes\<close>

lemma base_score_speednode:
  assumes "parse_name n = (''speednode'', ''speednode'', ''unknown'')"
  shows "50 \<le> base_score n"
proof -
  have b: "base_score n = 100 * sigmoid 0.163"
    using assms by (simp add: base_score_def BASE_BIAS_def KIND_W_def dict_get_def)
  have "exp (- 0.163 :: real) \<le> 1" by simp
  then have "1 + exp (- 0.163 :: real) \<le> 2" by simp
  then have "1 / 2 \<le> 1 / (1 + exp (- 0.163 :: real))"
    by (intro divide_left_mono) (simp_all add: add_pos_pos)
  then show ?thesis unfolding b by (simp add: sigmoid_def)
qed

lemma base_score_other:
  assumes "parse_name n = (''other'', ''unknown'', ''unknown'')"
  shows "base_score n < 10"
proof -
  let ?E = "exp (3.992 :: real)"
  have b: "base_score n = 100 * sigmoid (- 3.992)"
    using assms by (simp add: base_score_def BASE_BIAS_def KIND_W_def dict_get_def)
  have s: "100 * sigmoid (- 3.992) = 100 / (?E + 1)"
    by (simp add: sigmoid_def exp_minus field_simps)
  have "1 + 3.992 + 3.992\<^sup>2 / 2 \<le> ?E" by (rule exp_lower_Taylor_quadratic) simp
  then have "(9::real) < ?E" by (simp add: power2_eq_square)
  then have "100 < 10 * (?E + 1)" by simp
  then have "100 / (?E + 1) < 10"
    by (simp only: pos_divide_less_eq add_pos_pos exp_gt_zero zero_less_one)
  then show ?thesis unfolding b s .
qed

lemma score_speednode_b: "50 \<le> score [] ''speednode-b''" "50 \<le> score [] ''speednode-a''"
  using base_score_speednode [OF parse_speednode_ab(2)] base_score_speednode [OF parse_speednode_ab(1)]
  by (simp_all add: score_def dict_get_def)


subsection \<open>The threshold guard of the loop\<close>

lemma ensure_loop_exhausts:
  assumes "get_group w st = (Inr (now, cs, alive_map), st1)" and "cs \<noteq> []"
    and "sticky w now (usable_candidates cs alive_map) (register_candidates cs st1) = (None, st3)"
    and "pick_best alive_map (dyn_penalty st3) (usable_candidates cs alive_map) = Some best"
    and "score (dyn_penalty st3) best < SCORE_THRESHOLD"
  shows "ensure_loop (Suc fuel) w st
           = Some (Raises (PoolExhausted (score (dyn_penalty st3) best)), st3)"
  using assms by (simp add: ensure_loop.simps(2) Let_def)

lemma get_group_ab:
  "get_group (world t (group_ab now) probes) st
     = (Inr (now, [''speednode-a'', ''speednode-b''], \<lambda>n. None),
        st\<lparr>group_calls := group_calls st + 1\<rparr>)"
  by (simp add: get_group_def world_def group_ab_def GROUP_SENTINELS_def Let_def cong: if_cong)

lemma register_ab:
  "register_candidates [''speednode-a'', ''speednode-b''] ((init_pool t)\<lparr>group_calls := k\<rparr>)
     = (init_pool t)\<lparr>group_calls := k, dyn_penalty := [(''speednode-a'', 0), (''speednode-b'', 0)]\<rparr>"
  by (simp add: register_candidates_def setdefault_def init_pool_def)

lemma usable_ab:
  "usable_candidates [''speednode-a'', ''speednode-b''] (\<lambda>n. None)
     = [''speednode-a'', ''speednode-b'']"
  by (simp add: usable_candidates_def)

lemma preflight_ok:
  "preflight (world t g (\<lambda>i. Status 204)) st
     = ((True, [PREFLIGHT_URLS ! 0 @ '': 204'', PREFLIGHT_URLS ! 1 @ '': 204'']),
        st\<lparr>probe_calls := probe_calls st + 2\<rparr>)"
proof -
  have "str_int 204 = ''204''" by code_simp
  then show ?thesis
    by (simp add: preflight_def PREFLIGHT_URLS_def probe_once_def probe_result_def world_def)
qed

lemma run_ab:
  "ensure_loop (Suc 0) (world 0 (group_ab None) (\<lambda>i. Status 204)) (init_pool 0)
     = Some (Returns ''speednode-b'',
         (init_pool 0)\<lparr>group_calls := 1, dyn_penalty := [(''speednode-a'', 0), (''speednode-b'', 0)],
            put_calls := 1,
            events := [Select ''speednode-b'' [(''speednode-a'', 0), (''speednode-b'', 0)]],
            clock_calls := 1, probe_calls := 2\<rparr>)"
proof -
  let ?dyn = "[(''speednode-a'', 0), (''speednode-b'', 0)] :: (string \<times> real) list"
  have eq: "score ?dyn ''speednode-a'' = score ?dyn ''speednode-b''"
    using score_speednode_ab [of ?dyn] by (simp add: dict_get_def)
  have pb: "pick_best (\<lambda>n. None) ?dyn [''speednode-a'', ''speednode-b''] = Some ''speednode-b''"
    by (rule pick_best_pair) (simp_all add: eq)
  have sc: "\<not> score ?dyn ''speednode-b'' < SCORE_THRESHOLD"
    using score_speednode_b(1) by (simp add: score_def dict_get_def SCORE_THRESHOLD_def)
  show ?thesis
    unfolding ensure_loop.simps(2) get_group_ab
    apply (simp add: register_ab usable_ab sticky_def pb sc Let_def)
    apply (simp add: switch_to_def select_group_def world_def Let_def init_pool_def)
    apply (simp add: preflight_ok [unfolded world_def] init_pool_def)
    done
qed

lemma parse_plain: "parse_name ''plain'' = (''other'', ''unknown'', ''unknown'')"
  by code_simp

text \<open>The example of a current node that is kept while the best-ranked candidate is
  poor.\<close>

lemma tagged_names:
  "node_business_low \<noteq> node_datacenter_high" "node_business_low \<noteq> []"
  "node_business_low \<notin> set GROUP_SENTINELS" "node_datacenter_high \<notin> set GROUP_SENTINELS"
  by (simp_all add: node_business_low_def node_datacenter_high_def GROUP_SENTINELS_def)

lemma get_group_tagged:
  "get_group (world t group_tagged probes) st
     = (Inr (Some node_business_low, [node_business_low, node_datacenter_high], alive_tagged),
        st\<lparr>group_calls := group_calls st + 1\<rparr>)"
proof -
  have "(\<lambda>n. if n \<in> set [node_business_low, node_datacenter_high]
              then map_of [(node_datacenter_high, True)] n else None) = alive_tagged"
    by (rule ext) (simp only: alive_tagged_def)
  then show ?thesis
    using tagged_names(3,4)
    by (simp add: get_group_def world_def group_tagged_def Let_def cong: if_cong)
qed

lemma alive_tagged_values:
  "alive_tagged node_business_low = None" "alive_tagged node_datacenter_high = Some True"
  using tagged_names(1) by (simp_all add: alive_tagged_def)

lemma score_tagged:
  "SCORE_THRESHOLD \<le> score [(node_business_low, 0), (node_datacenter_high, 0)] node_business_low"
  "score [(node_business_low, 0), (node_datacenter_high, 0)] node_datacenter_high < SCORE_THRESHOLD"
proof -
  let ?dyn = "[(node_business_low, 0), (node_datacenter_high, 0)] :: (string \<times> real) list"
  have "score ?dyn node_business_low = 100 * sigmoid 2.111"
    using base_score_business_low [OF parse_example_nodes(1)]
    by (simp add: score_def dict_get_def)
  with sigmoid_2111(1) show "SCORE_THRESHOLD \<le> score ?dyn node_business_low"
    by (simp add: SCORE_THRESHOLD_def)
  have "score ?dyn node_datacenter_high = 100 * sigmoid (- 3.424)"
    using base_score_datacenter_high [OF parse_example_nodes(2)] tagged_names(1)
    by (simp add: score_def dict_get_def)
  with sigmoid_m3424(2) show "score ?dyn node_datacenter_high < SCORE_THRESHOLD"
    by (simp add: SCORE_THRESHOLD_def)
qed

lemma pick_best_tagged:
  "pick_best alive_tagged dyn [node_business_low, node_datacenter_high]
     = Some node_datacenter_high"
proof -
  have "(alive_rank (alive_tagged node_business_low), score dyn node_business_low,
           node_business_low)
      < (alive_rank (alive_tagged node_datacenter_high), score dyn node_datacenter_high,
           node_datacenter_high)"
    unfolding key_less_iff by (simp add: alive_tagged_values alive_rank_def)
  then show ?thesis by (rule pick_best_two(1))
qed

lemma run_tagged:
  "ensure_loop (Suc 0) (world 0 group_tagged (\<lambda>i. Status 204)) (init_pool 0)
     = Some (Returns node_business_low,
         (init_pool 0)\<lparr>group_calls := 1,
            dyn_penalty := [(node_business_low, 0), (node_datacenter_high, 0)],
            probe_calls := 2\<rparr>)"
proof -
  have u: "usable_candidates [node_business_low, node_datacenter_high] alive_tagged
             = [node_business_low, node_datacenter_high]"
    by (simp add: usable_candidates_def alive_tagged_values)
  have r: "register_candidates [node_business_low, node_datacenter_high]
             ((init_pool 0)\<lparr>group_calls := k\<rparr>)
           = (init_pool 0)\<lparr>group_calls := k,
                dyn_penalty := [(node_business_low, 0), (node_datacenter_high, 0)]\<rparr>" for k
    using tagged_names(1) by (simp add: register_candidates_def setdefault_def init_pool_def)
  show ?thesis
    unfolding ensure_loop.simps(2) get_group_tagged
    using tagged_names(2) score_tagged(1)
    apply (simp add: r u sticky_def Let_def preflight_ok)
    apply (simp add: init_pool_def)
    done
qed

text \<open>
  C2, as the code has it. A selection request is recorded with its target and the
  ledger of that moment, which it leaves as it is. Whatever the world answers, the
  selection requests of the loop are the events it adds to the trace, and each of them
  names a candidate whose score, under the ledger of the request, is at least the
  threshold; a return leaves the caller on a node whose score is at least the threshold;
  an exhaustion error carries a score below the threshold. An iteration whose sticky
  check does not keep the current node, and whose best-ranked usable candidate scores
  below the threshold, raises the exhaustion error with that score, having made no
  selection request. The threshold is 10.
\<close>

theorem ensure_loop_threshold:
  "(select_group w m a = (res, a') \<longrightarrow>
      events a' = events a @ [Select m (dyn_penalty a)]
    \<and> dyn_penalty a' = dyn_penalty a \<and> put_calls a' = put_calls a + 1)
   \<and> (ensure_loop fuel w st = Some (r, st') \<longrightarrow>
      (\<exists>new. events st' = events st @ new
          \<and> (\<forall>e \<in> set new. \<exists>n d. e = Select n d \<and> SCORE_THRESHOLD \<le> score d n)
          \<and> put_calls st' = put_calls st + length new)
    \<and> (\<forall>n. r = Returns n \<longrightarrow> SCORE_THRESHOLD \<le> score (dyn_penalty st') n)
    \<and> (\<forall>x. r = Raises (PoolExhausted x) \<longrightarrow> x < SCORE_THRESHOLD))
   \<and> (get_group w st = (Inr (now, cs, alive_map), st1) \<and> cs \<noteq> []
       \<and> sticky w now (usable_candidates cs alive_map) (register_candidates cs st1) = (None, st3)
       \<and> pick_best alive_map (dyn_penalty st3) (usable_candidates cs alive_map) = Some best
       \<and> score (dyn_penalty st3) best < SCORE_THRESHOLD \<longrightarrow>
         ensure_loop (Suc fuel) w st
           = Some (Raises (PoolExhausted (score (dyn_penalty st3) best)), st3)
       \<and> events st3 = events st \<and> put_calls st3 = put_calls st)
   \<and> SCORE_THRESHOLD = 10"
proof (intro conjI impI allI)
  assume "select_group w m a = (res, a')"
  then have a': "a' = a\<lparr>put_calls := put_calls a + 1,
                        events := events a @ [Select m (dyn_penalty a)]\<rparr>"
    by (auto simp: select_group_def Let_def split: if_splits)
  show "events a' = events a @ [Select m (dyn_penalty a)]"
    and "dyn_penalty a' = dyn_penalty a" and "put_calls a' = put_calls a + 1"
    by (simp_all add: a')
next
  assume a: "ensure_loop fuel w st = Some (r, st')"
  from ensure_loop_events [OF a]
  show "\<exists>new. events st' = events st @ new
          \<and> (\<forall>e \<in> set new. \<exists>n d. e = Select n d \<and> SCORE_THRESHOLD \<le> score d n)
          \<and> put_calls st' = put_calls st + length new" .
  {
    fix n assume "r = Returns n"
    with a show "SCORE_THRESHOLD \<le> score (dyn_penalty st') n"
      using ensure_loop_returns by blast
  }
  {
    fix x assume "r = Raises (PoolExhausted x)"
    with a show "x < SCORE_THRESHOLD" using ensure_loop_exhausted by blast
  }
next
  assume h: "get_group w st = (Inr (now, cs, alive_map), st1) \<and> cs \<noteq> []
       \<and> sticky w now (usable_candidates cs alive_map) (register_candidates cs st1) = (None, st3)
       \<and> pick_best alive_map (dyn_penalty st3) (usable_candidates cs alive_map) = Some best
       \<and> score (dyn_penalty st3) best < SCORE_THRESHOLD"
  then show "ensure_loop (Suc fuel) w st
           = Some (Raises (PoolExhausted (score (dyn_penalty st3) best)), st3)"
    using ensure_loop_exhausts by blast
  from h to_pick_frame(1,2) show "events st3 = events st" "put_calls st3 = put_calls st"
    by blast+
next
  show "SCORE_THRESHOLD = 10" by (simp add: SCORE_THRESHOLD_def)
qed

text \<open>The witness: with no node selected and two fast nodes, one iteration requests
  one of them, under a ledger that gives it a score of at least the threshold, and
  returns; with a single untagged node, whose score is below the threshold, the loop
  raises without a request.\<close>

theorem ensure_loop_threshold_witness:
  "events (snd (select_group (world 0 (group_ab None) (\<lambda>i. Status 204)) ''speednode-b''
             ((init_pool 0)\<lparr>dyn_penalty := [(''speednode-a'', 0), (''speednode-b'', 0)]\<rparr>)))
     = [Select ''speednode-b'' [(''speednode-a'', 0), (''speednode-b'', 0)]]
   \<and> ensure_loop (Suc 0) (world 0 (group_ab None) (\<lambda>i. Status 204)) (init_pool 0)
     = Some (Returns ''speednode-b'',
         (init_pool 0)\<lparr>group_calls := 1, dyn_penalty := [(''speednode-a'', 0), (''speednode-b'', 0)],
            put_calls := 1,
            events := [Select ''speednode-b'' [(''speednode-a'', 0), (''speednode-b'', 0)]],
            clock_calls := 1, probe_calls := 2\<rparr>)
   \<and> SCORE_THRESHOLD \<le> score [(''speednode-a'', 0), (''speednode-b'', 0)] ''speednode-b''
   \<and> ensure_loop (Suc 0)
        (world 0 \<lparr>g_now = None, g_all = [''plain''], g_alive = []\<rparr> (\<lambda>i. Status 204))
        (init_pool 0)
     = Some (Raises (PoolExhausted (score [(''plain'', 0)] ''plain'')),
         (init_pool 0)\<lparr>group_calls := 1, dyn_penalty := [(''plain'', 0)]\<rparr>)
   \<and> events ((init_pool 0)\<lparr>group_calls := 1, dyn_penalty := [(''plain'', 0)]\<rparr>) = []"
proof -
  let ?w = "world 0 (group_ab None) (\<lambda>i. Status 204)"
  let ?dyn = "[(''speednode-a'', 0), (''speednode-b'', 0)] :: (string \<times> real) list"
  let ?a = "(init_pool 0)\<lparr>dyn_penalty := ?dyn\<rparr>"
  have sg: "select_group ?w ''speednode-b'' ?a
              = (fst (select_group ?w ''speednode-b'' ?a), snd (select_group ?w ''speednode-b'' ?a))"
    by simp
  from ensure_loop_threshold [of ?w "''speednode-b''" ?a _ _ 0 "init_pool 0",
      THEN conjunct1, rule_format, OF sg]
  have 0: "events (snd (select_group ?w ''speednode-b'' ?a)) = [Select ''speednode-b'' ?dyn]"
    by (simp add: init_pool_def)
  let ?st' = "(init_pool 0)\<lparr>group_calls := 1, dyn_penalty := ?dyn, put_calls := 1,
            events := [Select ''speednode-b'' ?dyn], clock_calls := 1, probe_calls := 2\<rparr>"
  have run: "ensure_loop (Suc 0) ?w (init_pool 0) = Some (Returns ''speednode-b'', ?st')"
    by (rule run_ab)
  from ensure_loop_threshold [of ?w _ _ _ _ "Suc 0" "init_pool 0" "Returns ''speednode-b''" ?st',
      THEN conjunct2, THEN conjunct1, rule_format, OF run]
  have "SCORE_THRESHOLD \<le> score (dyn_penalty ?st') ''speednode-b''" by blast
  then have 1: "SCORE_THRESHOLD \<le> score ?dyn ''speednode-b''"
    by simp
  let ?v = "world 0 \<lparr>g_now = None, g_all = [''plain''], g_alive = []\<rparr> (\<lambda>i. Status 204)"
  let ?st1 = "(init_pool 0)\<lparr>group_calls := 1\<rparr>"
  let ?st3 = "(init_pool 0)\<lparr>group_calls := 1, dyn_penalty := [(''plain'', 0)]\<rparr>"
  have g: "get_group ?v (init_pool 0) = (Inr (None, [''plain''], \<lambda>n. None), ?st1)"
    by (simp add: get_group_def world_def GROUP_SENTINELS_def Let_def init_pool_def cong: if_cong)
  have u: "usable_candidates [''plain''] (\<lambda>n. None) = [''plain'']"
    by (simp add: usable_candidates_def)
  have r: "register_candidates [''plain''] ?st1 = ?st3"
    by (simp add: register_candidates_def setdefault_def init_pool_def)
  have s: "sticky ?v None (usable_candidates [''plain''] (\<lambda>n. None))
             (register_candidates [''plain''] ?st1) = (None, ?st3)"
    unfolding r u by (simp add: sticky_def)
  have p: "pick_best (\<lambda>n. None) (dyn_penalty ?st3) (usable_candidates [''plain''] (\<lambda>n. None))
             = Some ''plain''"
    by (simp add: u pick_best_def max_by_def)
  have b: "score (dyn_penalty ?st3) ''plain'' < SCORE_THRESHOLD"
    using base_score_other [OF parse_plain]
    by (simp add: score_def dict_get_def SCORE_THRESHOLD_def)
  have h: "get_group ?v (init_pool 0) = (Inr (None, [''plain''], \<lambda>n. None), ?st1)
       \<and> [''plain''] \<noteq> []
       \<and> sticky ?v None (usable_candidates [''plain''] (\<lambda>n. None))
            (register_candidates [''plain''] ?st1) = (None, ?st3)
       \<and> pick_best (\<lambda>n. None) (dyn_penalty ?st3) (usable_candidates [''plain''] (\<lambda>n. None))
            = Some ''plain''
       \<and> score (dyn_penalty ?st3) ''plain'' < SCORE_THRESHOLD"
    using g s p b by simp
  from ensure_loop_threshold [of ?v _ _ _ _ 0 "init_pool 0" _ _ None "[''plain'']" "\<lambda>n. None"
      ?st1 ?st3 "''plain''", THEN conjunct2, THEN conjunct2, THEN conjunct1, rule_format, OF h]
  have 2: "ensure_loop (Suc 0) ?v (init_pool 0)
             = Some (Raises (PoolExhausted (score (dyn_penalty ?st3) ''plain'')), ?st3)"
    and 3: "events ?st3 = events (init_pool 0)"
    by blast+
  from 2 have e2: "ensure_loop (Suc 0) ?v (init_pool 0)
             = Some (Raises (PoolExhausted (score [(''plain'', 0)] ''plain'')), ?st3)"
    by simp
  from 3 have e3: "events ?st3 = []" by (simp add: init_pool_def)
  from 0 run 1 e2 e3 show ?thesis by (intro conjI)
qed

text \<open>
  The claim as the specification states it fails. The group names the business node as
  current and reports only the datacenter node alive, so the datacenter node is the
  best-ranked usable candidate, and its score is below the threshold; the business
  node passes the sticky check, and the loop returns with it instead of raising.
\<close>

theorem ensure_loop_threshold_counterexample:
  "get_group (world 0 group_tagged (\<lambda>i. Status 204)) (init_pool 0)
     = (Inr (Some node_business_low, [node_business_low, node_datacenter_high], alive_tagged),
        (init_pool 0)\<lparr>group_calls := 1\<rparr>)
   \<and> usable_candidates [node_business_low, node_datacenter_high] alive_tagged
        = [node_business_low, node_datacenter_high]
   \<and> pick_best alive_tagged [(node_business_low, 0), (node_datacenter_high, 0)]
        [node_business_low, node_datacenter_high] = Some node_datacenter_high
   \<and> score [(node_business_low, 0), (node_datacenter_high, 0)] node_datacenter_high
        < SCORE_THRESHOLD
   \<and> ensure_loop (Suc 0) (world 0 group_tagged (\<lambda>i. Status 204)) (init_pool 0)
     = Some (Returns node_business_low,
         (init_pool 0)\<lparr>group_calls := 1,
            dyn_penalty := [(node_business_low, 0), (node_datacenter_high, 0)],
            probe_calls := 2\<rparr>)"
proof -
  have g: "get_group (world 0 group_tagged (\<lambda>i. Status 204)) (init_pool 0)
     = (Inr (Some node_business_low, [node_business_low, node_datacenter_high], alive_tagged),
        (init_pool 0)\<lparr>group_calls := 1\<rparr>)"
    unfolding get_group_tagged by (simp add: init_pool_def)
  have u: "usable_candidates [node_business_low, node_datacenter_high] alive_tagged
             = [node_business_low, node_datacenter_high]"
    by (simp add: usable_candidates_def alive_tagged_values)
  from g u pick_best_tagged score_tagged(2) run_tagged show ?thesis by (intro conjI)
qed

subsection \<open>Keeping the current node\<close>

lemma preflight_all_pass:
  assumes "\<forall>i < length PREFLIGHT_URLS.
             \<exists>s. probe_reply w (probe_calls st + i) = Status s \<and> 200 \<le> s \<and> s \<le> 399"
  shows "\<exists>ds. preflight w st
           = ((True, ds), st\<lparr>probe_calls := probe_calls st + length PREFLIGHT_URLS\<rparr>)"
proof -
  obtain ok ds st' where p: "preflight w st = ((ok, ds), st')" by (metis surj_pair)
  from preflight_from_spec [OF p [unfolded preflight_def]] obtain k where
    k: "k \<le> length PREFLIGHT_URLS" "st' = st\<lparr>probe_calls := probe_calls st + k\<rparr>"
    "if ok then k = length PREFLIGHT_URLS
        \<and> (\<forall>i < k. fst (probe_result (PREFLIGHT_URLS ! i) (probe_reply w (probe_calls st + i))))
     else 0 < k \<and> \<not> fst (probe_result (PREFLIGHT_URLS ! (k - 1))
                              (probe_reply w (probe_calls st + (k - 1))))"
    by blast
  have ok
  proof (rule ccontr)
    assume "\<not> ok"
    with k(3) have "0 < k" and
      n: "\<not> fst (probe_result (PREFLIGHT_URLS ! (k - 1)) (probe_reply w (probe_calls st + (k - 1))))"
      by (simp_all only: if_False simp_thms)
    with k(1) have "k - 1 < length PREFLIGHT_URLS" by simp
    with assms have "\<exists>s. probe_reply w (probe_calls st + (k - 1)) = Status s \<and> 200 \<le> s \<and> s \<le> 399"
      by blast
    with n show False unfolding probe_result_ok by blast
  qed
  with k p show ?thesis by simp
qed

lemma setdefault_present: "map_of d k \<noteq> None \<Longrightarrow> setdefault k v d = d"
  by (auto simp: setdefault_def)

lemma setdefault_dom: "dom (map_of (setdefault k v d)) = insert k (dom (map_of d))"
proof (cases "map_of d k")
  case None
  then show ?thesis by (simp add: setdefault_def dom_map_add) 
next
  case (Some a)
  then show ?thesis by (auto simp: setdefault_def)
qed

lemma register_dom:
  "dom (map_of (foldl (\<lambda>d n. setdefault n v d) d cs)) = set cs \<union> dom (map_of d)"
proof (induction cs arbitrary: d)
  case Nil
  then show ?case by simp
next
  case (Cons c cs)
  then show ?case by (simp add: setdefault_dom)
qed

lemma register_present:
  "set cs \<subseteq> dom (map_of d) \<Longrightarrow> foldl (\<lambda>d n. setdefault n v d) d cs = d"
proof (induction cs arbitrary: d)
  case Nil
  then show ?case by simp
next
  case (Cons c cs)
  then have "map_of d c \<noteq> None" by auto
  then have "setdefault c v d = d" by (rule setdefault_present)
  with Cons show ?case by simp
qed

lemma register_twice:
  "dyn_penalty (register_candidates cs (register_candidates cs st))
     = dyn_penalty (register_candidates cs st)"
  by (simp add: register_candidates_def register_present register_dom)

lemma ensure_loop_keeps:
  assumes g: "get_group w st = (Inr (Some n, cs, alive_map), st1)"
    and n: "n \<noteq> []" "n \<in> set (usable_candidates cs alive_map)"
    and sc: "SCORE_THRESHOLD \<le> score (dyn_penalty st) n"
    and pf: "\<forall>i < length PREFLIGHT_URLS.
               \<exists>s. probe_reply w (probe_calls st + i) = Status s \<and> 200 \<le> s \<and> s \<le> 399"
  shows "ensure_loop (Suc fuel) w st
           = Some (Returns n,
               (register_candidates cs st)\<lparr>group_calls := group_calls st + 1,
                  probe_calls := probe_calls st + length PREFLIGHT_URLS\<rparr>)"
proof -
  from g have st1: "st1 = st\<lparr>group_calls := group_calls st + 1\<rparr>"
    using get_group_frame [of w st] by simp
  let ?st2 = "register_candidates cs st1"
  have cs: "cs \<noteq> []"
  proof
    assume "cs = []"
    then have "usable_candidates cs alive_map = []" by (simp add: usable_candidates_def)
    with n(2) show False by simp
  qed
  have sc2: "SCORE_THRESHOLD \<le> score (dyn_penalty ?st2) n"
    using sc by (simp add: score_register st1)
  have "\<forall>i < length PREFLIGHT_URLS.
          \<exists>s. probe_reply w (probe_calls ?st2 + i) = Status s \<and> 200 \<le> s \<and> s \<le> 399"
    using pf by (simp add: register_frame st1)
  from preflight_all_pass [OF this] obtain ds where
    p: "preflight w ?st2 = ((True, ds), ?st2\<lparr>probe_calls := probe_calls ?st2 + length PREFLIGHT_URLS\<rparr>)"
    by blast
  have s: "sticky w (Some n) (usable_candidates cs alive_map) ?st2
             = (Some n, ?st2\<lparr>probe_calls := probe_calls ?st2 + length PREFLIGHT_URLS\<rparr>)"
    using n sc2 p by (simp add: sticky_def)
  have e: "?st2\<lparr>probe_calls := probe_calls ?st2 + length PREFLIGHT_URLS\<rparr>
        = (register_candidates cs st)\<lparr>group_calls := group_calls st + 1,
                  probe_calls := probe_calls st + length PREFLIGHT_URLS\<rparr>"
    by (simp add: st1 register_candidates_def)
  show ?thesis
    using g cs s unfolding e by (simp add: ensure_loop.simps(2) Let_def)
qed


lemma get_group_same_reply:
  "proxies_reply w (group_calls a) = proxies_reply w (group_calls b) \<Longrightarrow>
   fst (get_group w a) = fst (get_group w b)"
  by (simp add: get_group_def Let_def split: option.splits)

lemma ensure_proxy_reachable_loop:
  assumes "enabled s" and "\<not> lock_held st0"
    and "init_reply w (init_calls st0) \<or> \<not> required s"
    and "ensure_loop fuel w
           (maybe_refresh_dynamic w (st0\<lparr>init_calls := init_calls st0 + 1, lock_held := True\<rparr>))
         = Some (Returns n, st')"
  shows "ensure_proxy_reachable fuel s w st0 = Some (Returns (), st'\<lparr>lock_held := False\<rparr>)"
proof -
  have "ensure_started s w st0 = (Returns (), st0\<lparr>init_calls := init_calls st0 + 1\<rparr>)"
    using assms(1-3) by (auto simp: ensure_started_def Let_def)
  then show ?thesis
    using assms(1,2,4) by (simp add: ensure_proxy_reachable_def)
qed

lemma ensure_proxy_reachable_again:
  assumes g: "get_group w st = (Inr (Some n, cs, alive_map), st1)"
    and n: "n \<noteq> []" "n \<in> set (usable_candidates cs alive_map)"
    and sc: "SCORE_THRESHOLD \<le> score (dyn_penalty st) n"
    and st': "st' = (register_candidates cs st)\<lparr>group_calls := group_calls st + 1,
               probe_calls := probe_calls st + length PREFLIGHT_URLS\<rparr>"
    and en: "enabled s" and init: "init_reply w (init_calls st') \<or> \<not> required s"
    and idle: "monotonic w (clock_calls st') - last_switch_ts st' < REFRESH_IDLE_SECONDS"
    and same: "proxies_reply w (group_calls st') = proxies_reply w (group_calls st)"
    and pf: "\<forall>i < length PREFLIGHT_URLS.
               \<exists>c. probe_reply w (probe_calls st' + i) = Status c \<and> 200 \<le> c \<and> c \<le> 399"
  shows "\<exists>F'. ensure_proxy_reachable (Suc fuel) s w (st'\<lparr>lock_held := False\<rparr>)
                 = Some (Returns (), F')
           \<and> dyn_penalty F' = dyn_penalty st' \<and> last_switch_ts F' = last_switch_ts st'
           \<and> events F' = events st' \<and> put_calls F' = put_calls st' \<and> \<not> lock_held F'"
proof -
  let ?F = "st'\<lparr>lock_held := False\<rparr>"
  let ?E = "?F\<lparr>init_calls := init_calls ?F + 1, lock_held := True\<rparr>"
  let ?E' = "?E\<lparr>clock_calls := clock_calls ?E + 1\<rparr>"
  let ?E'' = "(register_candidates cs ?E')\<lparr>group_calls := group_calls ?E' + 1,
                 probe_calls := probe_calls ?E' + length PREFLIGHT_URLS\<rparr>"
  have r: "maybe_refresh_dynamic w ?E = ?E'"
    using idle by (intro refresh_below) simp
  have "fst (get_group w ?E') = fst (get_group w st)"
    using same by (intro get_group_same_reply) simp
  with g have g': "get_group w ?E' = (Inr (Some n, cs, alive_map), snd (get_group w ?E'))"
    by (metis fst_conv prod.collapse)
  have d: "dyn_penalty ?E' = dyn_penalty (register_candidates cs st)"
    by (simp add: st')
  have sc': "SCORE_THRESHOLD \<le> score (dyn_penalty ?E') n"
    unfolding d score_register by (rule sc)
  have pf': "\<forall>i < length PREFLIGHT_URLS.
               \<exists>c. probe_reply w (probe_calls ?E' + i) = Status c \<and> 200 \<le> c \<and> c \<le> 399"
    using pf by simp
  have loop: "ensure_loop (Suc fuel) w ?E' = Some (Returns n, ?E'')"
    by (rule ensure_loop_keeps [OF g' n sc' pf'])
  have "ensure_proxy_reachable (Suc fuel) s w ?F = Some (Returns (), ?E''\<lparr>lock_held := False\<rparr>)"
  proof (rule ensure_proxy_reachable_loop [OF en])
    show "\<not> lock_held ?F" by simp
    show "init_reply w (init_calls ?F) \<or> \<not> required s" using init by simp
    show "ensure_loop (Suc fuel) w
            (maybe_refresh_dynamic w (?F\<lparr>init_calls := init_calls ?F + 1, lock_held := True\<rparr>))
          = Some (Returns n, ?E'')"
      unfolding r by (rule loop)
  qed
  moreover have "dyn_penalty (?E''\<lparr>lock_held := False\<rparr>) = dyn_penalty st'"
  proof -
    have "dyn_penalty (register_candidates cs ?E')
            = dyn_penalty (register_candidates cs (register_candidates cs st))"
      by (simp add: register_candidates_def st')
    also have "\<dots> = dyn_penalty (register_candidates cs st)" by (rule register_twice)
    finally show ?thesis by (simp add: st')
  qed
  moreover have "last_switch_ts (?E''\<lparr>lock_held := False\<rparr>) = last_switch_ts st'"
    "events (?E''\<lparr>lock_held := False\<rparr>) = events st'"
    "put_calls (?E''\<lparr>lock_held := False\<rparr>) = put_calls st'"
    "\<not> lock_held (?E''\<lparr>lock_held := False\<rparr>)"
    by (simp_all add: register_frame)
  ultimately show ?thesis by blast
qed

lemma refresh_ledger:
  "dict_get (dyn_penalty (maybe_refresh_dynamic w st)) m 0
     = (if monotonic w (clock_calls st) - last_switch_ts st < REFRESH_IDLE_SECONDS
           \<or> \<not> list_ex (\<lambda>v. v > 0) (map snd (dyn_penalty st))
        then dict_get (dyn_penalty st) m 0 else 0)"
proof -
  have "dict_get (map (\<lambda>kv. (fst kv, 0)) d) m 0 = (0::real)" for d :: "(string \<times> real) list"
    by (induction d) (auto simp: dict_get_def)
  then show ?thesis by (simp add: maybe_refresh_dynamic_def Let_def)
qed

lemma refresh_timer:
  "last_switch_ts (maybe_refresh_dynamic w st)
     = (if monotonic w (clock_calls st) - last_switch_ts st < REFRESH_IDLE_SECONDS
        then last_switch_ts st else monotonic w (clock_calls st + 1))"
  by (simp add: maybe_refresh_dynamic_def Let_def)

lemma refresh_trace:
  "monotonic w (clock_calls st) - last_switch_ts st < REFRESH_IDLE_SECONDS \<Longrightarrow>
   events (maybe_refresh_dynamic w st) = events st"
  by (simp add: maybe_refresh_dynamic_def Let_def)

lemma refresh_put: "put_calls (maybe_refresh_dynamic w st) = put_calls st"
  by (simp add: maybe_refresh_dynamic_def Let_def)

text \<open>
  C9, as the code has it. Let the loop be entered in a state where the group names a
  current node that is among the usable candidates and scores at least the threshold,
  and let every probe of the preflight pass. Then the first iteration returns with that
  node: no selection request is made, and the loop leaves the idle timer and every
  penalty of the ledger as they were on its entry (the ledger only gains a zero entry
  for each candidate it did not know). Entered again in the state it left, with the
  world answering alike, the loop returns again and leaves ledger, timer and trace
  exactly as they were.

  The call as a whole, whose loop is entered in such a state, returns and makes no
  selection request. It leaves timer, trace and penalties as they were before the call
  when the clock is less than \<open>REFRESH_IDLE_SECONDS\<close> past the timer; otherwise the idle
  reset, which runs before the loop, has set the timer to the clock and, if some penalty
  was positive, every penalty to zero. A second call, made in the state the first one
  left, with the world answering alike and the clock less than \<open>REFRESH_IDLE_SECONDS\<close>
  past the timer, returns and leaves ledger, timer and trace exactly as they were.
\<close>

theorem sticky_stability:
  "get_group w st = (Inr (Some n, cs, alive_map), st1) \<and> n \<noteq> []
   \<and> n \<in> set (usable_candidates cs alive_map)
   \<and> SCORE_THRESHOLD \<le> score (dyn_penalty st) n
   \<and> (\<forall>i < length PREFLIGHT_URLS.
         \<exists>c. probe_reply w (probe_calls st + i) = Status c \<and> 200 \<le> c \<and> c \<le> 399)
   \<and> st' = (register_candidates cs st)\<lparr>group_calls := group_calls st + 1,
               probe_calls := probe_calls st + length PREFLIGHT_URLS\<rparr>
   \<longrightarrow>
     ensure_loop (Suc fuel) w st = Some (Returns n, st')
   \<and> put_calls st' = put_calls st \<and> events st' = events st
   \<and> last_switch_ts st' = last_switch_ts st
   \<and> (\<forall>m. dict_get (dyn_penalty st') m 0 = dict_get (dyn_penalty st) m 0)
   \<and> (proxies_reply w (group_calls st') = proxies_reply w (group_calls st)
        \<and> (\<forall>i < length PREFLIGHT_URLS.
              \<exists>c. probe_reply w (probe_calls st' + i) = Status c \<and> 200 \<le> c \<and> c \<le> 399)
       \<longrightarrow> (\<exists>st''. ensure_loop (Suc fuel) w st' = Some (Returns n, st'')
              \<and> dyn_penalty st'' = dyn_penalty st'
              \<and> last_switch_ts st'' = last_switch_ts st'
              \<and> events st'' = events st' \<and> put_calls st'' = put_calls st'))
   \<and> (enabled s \<and> \<not> lock_held st0 \<and> (init_reply w (init_calls st0) \<or> \<not> required s)
        \<and> st = maybe_refresh_dynamic w (st0\<lparr>init_calls := init_calls st0 + 1, lock_held := True\<rparr>)
       \<longrightarrow> ensure_proxy_reachable (Suc fuel) s w st0
              = Some (Returns (), st'\<lparr>lock_held := False\<rparr>)
           \<and> put_calls st' = put_calls st0
           \<and> (monotonic w (clock_calls st0) - last_switch_ts st0 < REFRESH_IDLE_SECONDS
               \<longrightarrow> last_switch_ts st' = last_switch_ts st0 \<and> events st' = events st0
                  \<and> (\<forall>m. dict_get (dyn_penalty st') m 0 = dict_get (dyn_penalty st0) m 0))
           \<and> (REFRESH_IDLE_SECONDS \<le> monotonic w (clock_calls st0) - last_switch_ts st0
               \<longrightarrow> last_switch_ts st' = monotonic w (clock_calls st0 + 1)
                  \<and> (\<forall>m. dict_get (dyn_penalty st') m 0
                          = (if list_ex (\<lambda>v. v > 0) (map snd (dyn_penalty st0)) then 0
                             else dict_get (dyn_penalty st0) m 0))))
   \<and> (enabled s \<and> (init_reply w (init_calls st') \<or> \<not> required s)
        \<and> monotonic w (clock_calls st') - last_switch_ts st' < REFRESH_IDLE_SECONDS
        \<and> proxies_reply w (group_calls st') = proxies_reply w (group_calls st)
        \<and> (\<forall>i < length PREFLIGHT_URLS.
              \<exists>c. probe_reply w (probe_calls st' + i) = Status c \<and> 200 \<le> c \<and> c \<le> 399)
       \<longrightarrow> (\<exists>F'. ensure_proxy_reachable (Suc fuel) s w (st'\<lparr>lock_held := False\<rparr>)
                    = Some (Returns (), F')
              \<and> dyn_penalty F' = dyn_penalty st' \<and> last_switch_ts F' = last_switch_ts st'
              \<and> events F' = events st' \<and> put_calls F' = put_calls st' \<and> \<not> lock_held F'))"
proof (intro impI)
  assume h: "get_group w st = (Inr (Some n, cs, alive_map), st1) \<and> n \<noteq> []
   \<and> n \<in> set (usable_candidates cs alive_map)
   \<and> SCORE_THRESHOLD \<le> score (dyn_penalty st) n
   \<and> (\<forall>i < length PREFLIGHT_URLS.
         \<exists>c. probe_reply w (probe_calls st + i) = Status c \<and> 200 \<le> c \<and> c \<le> 399)
   \<and> st' = (register_candidates cs st)\<lparr>group_calls := group_calls st + 1,
               probe_calls := probe_calls st + length PREFLIGHT_URLS\<rparr>"
  then have g: "get_group w st = (Inr (Some n, cs, alive_map), st1)"
    and n: "n \<noteq> []" "n \<in> set (usable_candidates cs alive_map)"
    and sc: "SCORE_THRESHOLD \<le> score (dyn_penalty st) n"
    and pf: "\<forall>i < length PREFLIGHT_URLS.
         \<exists>c. probe_reply w (probe_calls st + i) = Status c \<and> 200 \<le> c \<and> c \<le> 399"
    and st': "st' = (register_candidates cs st)\<lparr>group_calls := group_calls st + 1,
               probe_calls := probe_calls st + length PREFLIGHT_URLS\<rparr>"
    by blast+
  have run: "ensure_loop (Suc fuel) w st = Some (Returns n, st')"
    unfolding st' by (rule ensure_loop_keeps [OF g n sc pf])
  have f1: "put_calls st' = put_calls st" "events st' = events st"
    "last_switch_ts st' = last_switch_ts st"
    by (simp_all add: st' register_frame)
  have f2: "\<forall>m. dict_get (dyn_penalty st') m 0 = dict_get (dyn_penalty st) m 0"
    by (simp add: st' dict_get_register)
  have again: "proxies_reply w (group_calls st') = proxies_reply w (group_calls st)
        \<and> (\<forall>i < length PREFLIGHT_URLS.
              \<exists>c. probe_reply w (probe_calls st' + i) = Status c \<and> 200 \<le> c \<and> c \<le> 399)
       \<longrightarrow> (\<exists>st''. ensure_loop (Suc fuel) w st' = Some (Returns n, st'')
              \<and> dyn_penalty st'' = dyn_penalty st'
              \<and> last_switch_ts st'' = last_switch_ts st'
              \<and> events st'' = events st' \<and> put_calls st'' = put_calls st')"
  proof
    assume a: "proxies_reply w (group_calls st') = proxies_reply w (group_calls st)
        \<and> (\<forall>i < length PREFLIGHT_URLS.
              \<exists>c. probe_reply w (probe_calls st' + i) = Status c \<and> 200 \<le> c \<and> c \<le> 399)"
    then have "fst (get_group w st') = fst (get_group w st)"
      by (intro get_group_same_reply) simp
    with g have g': "get_group w st' = (Inr (Some n, cs, alive_map), snd (get_group w st'))"
      by (metis fst_conv prod.collapse)
    have sc': "SCORE_THRESHOLD \<le> score (dyn_penalty st') n"
      using sc f2 by (simp add: score_def)
    let ?st'' = "(register_candidates cs st')\<lparr>group_calls := group_calls st' + 1,
                   probe_calls := probe_calls st' + length PREFLIGHT_URLS\<rparr>"
    from a have pf': "\<forall>i < length PREFLIGHT_URLS.
              \<exists>c. probe_reply w (probe_calls st' + i) = Status c \<and> 200 \<le> c \<and> c \<le> 399"
      by blast
    have "ensure_loop (Suc fuel) w st' = Some (Returns n, ?st'')"
      by (rule ensure_loop_keeps [OF g' n sc' pf'])
    moreover have "dyn_penalty ?st'' = dyn_penalty st'"
      using register_twice [of cs st]
      by (simp add: st' register_candidates_def)
    moreover have "last_switch_ts ?st'' = last_switch_ts st'" "events ?st'' = events st'"
      "put_calls ?st'' = put_calls st'"
      by (simp_all add: register_frame)
    ultimately show "\<exists>st''. ensure_loop (Suc fuel) w st' = Some (Returns n, st'')
              \<and> dyn_penalty st'' = dyn_penalty st'
              \<and> last_switch_ts st'' = last_switch_ts st'
              \<and> events st'' = events st' \<and> put_calls st'' = put_calls st'"
      by blast
  qed
  have whole: "enabled s \<and> \<not> lock_held st0 \<and> (init_reply w (init_calls st0) \<or> \<not> required s)
        \<and> st = maybe_refresh_dynamic w (st0\<lparr>init_calls := init_calls st0 + 1, lock_held := True\<rparr>)
       \<longrightarrow> ensure_proxy_reachable (Suc fuel) s w st0
              = Some (Returns (), st'\<lparr>lock_held := False\<rparr>)
           \<and> put_calls st' = put_calls st0
           \<and> (monotonic w (clock_calls st0) - last_switch_ts st0 < REFRESH_IDLE_SECONDS
               \<longrightarrow> last_switch_ts st' = last_switch_ts st0 \<and> events st' = events st0
                  \<and> (\<forall>m. dict_get (dyn_penalty st') m 0 = dict_get (dyn_penalty st0) m 0))
           \<and> (REFRESH_IDLE_SECONDS \<le> monotonic w (clock_calls st0) - last_switch_ts st0
               \<longrightarrow> last_switch_ts st' = monotonic w (clock_calls st0 + 1)
                  \<and> (\<forall>m. dict_get (dyn_penalty st') m 0
                          = (if list_ex (\<lambda>v. v > 0) (map snd (dyn_penalty st0)) then 0
                             else dict_get (dyn_penalty st0) m 0)))"
  proof
    let ?e = "st0\<lparr>init_calls := init_calls st0 + 1, lock_held := True\<rparr>"
    assume a: "enabled s \<and> \<not> lock_held st0 \<and> (init_reply w (init_calls st0) \<or> \<not> required s)
        \<and> st = maybe_refresh_dynamic w ?e"
    then have st: "st = maybe_refresh_dynamic w ?e" by blast
    from a have c1: "ensure_proxy_reachable (Suc fuel) s w st0
              = Some (Returns (), st'\<lparr>lock_held := False\<rparr>)"
      using run by (intro ensure_proxy_reachable_loop) auto
    have c2: "put_calls st' = put_calls st0"
      using f1(1) by (simp add: st refresh_put)
    have c3: "monotonic w (clock_calls st0) - last_switch_ts st0 < REFRESH_IDLE_SECONDS
               \<longrightarrow> last_switch_ts st' = last_switch_ts st0 \<and> events st' = events st0
                  \<and> (\<forall>m. dict_get (dyn_penalty st') m 0 = dict_get (dyn_penalty st0) m 0)"
    proof
      assume "monotonic w (clock_calls st0) - last_switch_ts st0 < REFRESH_IDLE_SECONDS"
      then have i: "monotonic w (clock_calls ?e) - last_switch_ts ?e < REFRESH_IDLE_SECONDS"
        by simp
      have "last_switch_ts st = last_switch_ts st0" "events st = events st0"
        "\<forall>m. dict_get (dyn_penalty st) m 0 = dict_get (dyn_penalty st0) m 0"
        unfolding st refresh_below [OF i] by simp_all
      with f1 f2 show "last_switch_ts st' = last_switch_ts st0 \<and> events st' = events st0
                  \<and> (\<forall>m. dict_get (dyn_penalty st') m 0 = dict_get (dyn_penalty st0) m 0)"
        by simp
    qed
    have c4: "REFRESH_IDLE_SECONDS \<le> monotonic w (clock_calls st0) - last_switch_ts st0
               \<longrightarrow> last_switch_ts st' = monotonic w (clock_calls st0 + 1)
                  \<and> (\<forall>m. dict_get (dyn_penalty st') m 0
                          = (if list_ex (\<lambda>v. v > 0) (map snd (dyn_penalty st0)) then 0
                             else dict_get (dyn_penalty st0) m 0))"
    proof
      assume "REFRESH_IDLE_SECONDS \<le> monotonic w (clock_calls st0) - last_switch_ts st0"
      then have i: "\<not> monotonic w (clock_calls ?e) - last_switch_ts ?e < REFRESH_IDLE_SECONDS"
        by simp
      have "last_switch_ts st = monotonic w (clock_calls st0 + 1)"
        unfolding st refresh_timer using i by simp
      moreover have "\<forall>m. dict_get (dyn_penalty st) m 0
                          = (if list_ex (\<lambda>v. v > 0) (map snd (dyn_penalty st0)) then 0
                             else dict_get (dyn_penalty st0) m 0)"
        unfolding st refresh_ledger using i by simp
      ultimately show "last_switch_ts st' = monotonic w (clock_calls st0 + 1)
                  \<and> (\<forall>m. dict_get (dyn_penalty st') m 0
                          = (if list_ex (\<lambda>v. v > 0) (map snd (dyn_penalty st0)) then 0
                             else dict_get (dyn_penalty st0) m 0))"
        using f1 f2 by simp
    qed
    from c1 c2 c3 c4
    show "ensure_proxy_reachable (Suc fuel) s w st0
              = Some (Returns (), st'\<lparr>lock_held := False\<rparr>)
           \<and> put_calls st' = put_calls st0
           \<and> (monotonic w (clock_calls st0) - last_switch_ts st0 < REFRESH_IDLE_SECONDS
               \<longrightarrow> last_switch_ts st' = last_switch_ts st0 \<and> events st' = events st0
                  \<and> (\<forall>m. dict_get (dyn_penalty st') m 0 = dict_get (dyn_penalty st0) m 0))
           \<and> (REFRESH_IDLE_SECONDS \<le> monotonic w (clock_calls st0) - last_switch_ts st0
               \<longrightarrow> last_switch_ts st' = monotonic w (clock_calls st0 + 1)
                  \<and> (\<forall>m. dict_get (dyn_penalty st') m 0
                          = (if list_ex (\<lambda>v. v > 0) (map snd (dyn_penalty st0)) then 0
                             else dict_get (dyn_penalty st0) m 0)))"
      by (intro conjI)
  qed
  have second: "enabled s \<and> (init_reply w (init_calls st') \<or> \<not> required s)
        \<and> monotonic w (clock_calls st') - last_switch_ts st' < REFRESH_IDLE_SECONDS
        \<and> proxies_reply w (group_calls st') = proxies_reply w (group_calls st)
        \<and> (\<forall>i < length PREFLIGHT_URLS.
              \<exists>c. probe_reply w (probe_calls st' + i) = Status c \<and> 200 \<le> c \<and> c \<le> 399)
       \<longrightarrow> (\<exists>F'. ensure_proxy_reachable (Suc fuel) s w (st'\<lparr>lock_held := False\<rparr>)
                    = Some (Returns (), F')
              \<and> dyn_penalty F' = dyn_penalty st' \<and> last_switch_ts F' = last_switch_ts st'
              \<and> events F' = events st' \<and> put_calls F' = put_calls st' \<and> \<not> lock_held F')"
  proof
    assume a: "enabled s \<and> (init_reply w (init_calls st') \<or> \<not> required s)
        \<and> monotonic w (clock_calls st') - last_switch_ts st' < REFRESH_IDLE_SECONDS
        \<and> proxies_reply w (group_calls st') = proxies_reply w (group_calls st)
        \<and> (\<forall>i < length PREFLIGHT_URLS.
              \<exists>c. probe_reply w (probe_calls st' + i) = Status c \<and> 200 \<le> c \<and> c \<le> 399)"
    then have en: "enabled s" and init: "init_reply w (init_calls st') \<or> \<not> required s"
      and idle: "monotonic w (clock_calls st') - last_switch_ts st' < REFRESH_IDLE_SECONDS"
      and same: "proxies_reply w (group_calls st') = proxies_reply w (group_calls st)"
      and pf': "\<forall>i < length PREFLIGHT_URLS.
              \<exists>c. probe_reply w (probe_calls st' + i) = Status c \<and> 200 \<le> c \<and> c \<le> 399"
      by blast+
    show "\<exists>F'. ensure_proxy_reachable (Suc fuel) s w (st'\<lparr>lock_held := False\<rparr>)
                    = Some (Returns (), F')
              \<and> dyn_penalty F' = dyn_penalty st' \<and> last_switch_ts F' = last_switch_ts st'
              \<and> events F' = events st' \<and> put_calls F' = put_calls st' \<and> \<not> lock_held F'"
      by (rule ensure_proxy_reachable_again [OF g n sc st' en init idle same pf'])
  qed
  from run f1 f2 again whole second
  show "ensure_loop (Suc fuel) w st = Some (Returns n, st')
   \<and> put_calls st' = put_calls st \<and> events st' = events st
   \<and> last_switch_ts st' = last_switch_ts st
   \<and> (\<forall>m. dict_get (dyn_penalty st') m 0 = dict_get (dyn_penalty st) m 0)
   \<and> (proxies_reply w (group_calls st') = proxies_reply w (group_calls st)
        \<and> (\<forall>i < length PREFLIGHT_URLS.
              \<exists>c. probe_reply w (probe_calls st' + i) = Status c \<and> 200 \<le> c \<and> c \<le> 399)
       \<longrightarrow> (\<exists>st''. ensure_loop (Suc fuel) w st' = Some (Returns n, st'')
              \<and> dyn_penalty st'' = dyn_penalty st'
              \<and> last_switch_ts st'' = last_switch_ts st'
              \<and> events st'' = events st' \<and> put_calls st'' = put_calls st'))
   \<and> (enabled s \<and> \<not> lock_held st0 \<and> (init_reply w (init_calls st0) \<or> \<not> required s)
        \<and> st = maybe_refresh_dynamic w (st0\<lparr>init_calls := init_calls st0 + 1, lock_held := True\<rparr>)
       \<longrightarrow> ensure_proxy_reachable (Suc fuel) s w st0
              = Some (Returns (), st'\<lparr>lock_held := False\<rparr>)
           \<and> put_calls st' = put_calls st0
           \<and> (monotonic w (clock_calls st0) - last_switch_ts st0 < REFRESH_IDLE_SECONDS
               \<longrightarrow> last_switch_ts st' = last_switch_ts st0 \<and> events st' = events st0
                  \<and> (\<forall>m. dict_get (dyn_penalty st') m 0 = dict_get (dyn_penalty st0) m 0))
           \<and> (REFRESH_IDLE_SECONDS \<le> monotonic w (clock_calls st0) - last_switch_ts st0
               \<longrightarrow> last_switch_ts st' = monotonic w (clock_calls st0 + 1)
                  \<and> (\<forall>m. dict_get (dyn_penalty st') m 0
                          = (if list_ex (\<lambda>v. v > 0) (map snd (dyn_penalty st0)) then 0
                             else dict_get (dyn_penalty st0) m 0))))
   \<and> (enabled s \<and> (init_reply w (init_calls st') \<or> \<not> required s)
        \<and> monotonic w (clock_calls st') - last_switch_ts st' < REFRESH_IDLE_SECONDS
        \<and> proxies_reply w (group_calls st') = proxies_reply w (group_calls st)
        \<and> (\<forall>i < length PREFLIGHT_URLS.
              \<exists>c. probe_reply w (probe_calls st' + i) = Status c \<and> 200 \<le> c \<and> c \<le> 399)
       \<longrightarrow> (\<exists>F'. ensure_proxy_reachable (Suc fuel) s w (st'\<lparr>lock_held := False\<rparr>)
                    = Some (Returns (), F')
              \<and> dyn_penalty F' = dyn_penalty st' \<and> last_switch_ts F' = last_switch_ts st'
              \<and> events F' = events st' \<and> put_calls F' = put_calls st' \<and> \<not> lock_held F'))"
    by (intro conjI)
qed

text \<open>The witness: the group holds two fast nodes and names the first as current, every
  probe answers 204 and the clock stands at the timer. The loop and the call return
  with no request and an empty trace, and so does a second call.\<close>

theorem sticky_stability_witness:
  "ensure_loop (Suc 0) (world 0 (group_ab (Some ''speednode-a'')) (\<lambda>i. Status 204))
     ((init_pool 0)\<lparr>init_calls := 1, lock_held := True, clock_calls := 1\<rparr>)
     = Some (Returns ''speednode-a'',
         (register_candidates [''speednode-a'', ''speednode-b'']
            ((init_pool 0)\<lparr>init_calls := 1, lock_held := True, clock_calls := 1\<rparr>))
           \<lparr>group_calls := 1, probe_calls := 2\<rparr>)
   \<and> ensure_proxy_reachable (Suc 0) settings_on
       (world 0 (group_ab (Some ''speednode-a'')) (\<lambda>i. Status 204)) (init_pool 0)
     = Some (Returns (),
         (register_candidates [''speednode-a'', ''speednode-b'']
            ((init_pool 0)\<lparr>init_calls := 1, lock_held := True, clock_calls := 1\<rparr>))
           \<lparr>group_calls := 1, probe_calls := 2, lock_held := False\<rparr>)
   \<and> put_calls ((register_candidates [''speednode-a'', ''speednode-b'']
            ((init_pool 0)\<lparr>init_calls := 1, lock_held := True, clock_calls := 1\<rparr>))
           \<lparr>group_calls := 1, probe_calls := 2\<rparr>) = 0
   \<and> last_switch_ts ((register_candidates [''speednode-a'', ''speednode-b'']
            ((init_pool 0)\<lparr>init_calls := 1, lock_held := True, clock_calls := 1\<rparr>))
           \<lparr>group_calls := 1, probe_calls := 2\<rparr>) = 0
   \<and> events ((register_candidates [''speednode-a'', ''speednode-b'']
            ((init_pool 0)\<lparr>init_calls := 1, lock_held := True, clock_calls := 1\<rparr>))
           \<lparr>group_calls := 1, probe_calls := 2\<rparr>) = []
   \<and> (\<exists>F'. ensure_proxy_reachable (Suc 0) settings_on
               (world 0 (group_ab (Some ''speednode-a'')) (\<lambda>i. Status 204))
               ((register_candidates [''speednode-a'', ''speednode-b'']
                  ((init_pool 0)\<lparr>init_calls := 1, lock_held := True, clock_calls := 1\<rparr>))
                 \<lparr>group_calls := 1, probe_calls := 2, lock_held := False\<rparr>)
             = Some (Returns (), F')
          \<and> last_switch_ts F' = 0 \<and> events F' = [] \<and> put_calls F' = 0)"
proof -
  let ?w = "world 0 (group_ab (Some ''speednode-a'')) (\<lambda>i. Status 204)"
  let ?e = "(init_pool 0)\<lparr>init_calls := 1, lock_held := True, clock_calls := 1\<rparr>"
  let ?cs = "[''speednode-a'', ''speednode-b'']"
  let ?st' = "(register_candidates ?cs ?e)\<lparr>group_calls := 1, probe_calls := 2\<rparr>"
  have len: "length PREFLIGHT_URLS = 2" by (simp add: PREFLIGHT_URLS_def)
  have g: "get_group ?w ?e = (Inr (Some ''speednode-a'', ?cs, \<lambda>n. None),
             ?e\<lparr>group_calls := group_calls ?e + 1\<rparr>)"
    by (rule get_group_ab)
  have u: "''speednode-a'' \<in> set (usable_candidates ?cs (\<lambda>n. None))"
    by (simp add: usable_ab)
  have sc: "SCORE_THRESHOLD \<le> score (dyn_penalty ?e) ''speednode-a''"
    using score_speednode_b(2) by (simp add: init_pool_def SCORE_THRESHOLD_def)
  have pf: "\<forall>i < length PREFLIGHT_URLS.
         \<exists>c. probe_reply ?w (probe_calls ?e + i) = Status c \<and> 200 \<le> c \<and> c \<le> 399"
    by (simp add: world_def)
  have st': "?st' = (register_candidates ?cs ?e)\<lparr>group_calls := group_calls ?e + 1,
               probe_calls := probe_calls ?e + length PREFLIGHT_URLS\<rparr>"
    by (simp add: len init_pool_def)
  have h: "get_group ?w ?e = (Inr (Some ''speednode-a'', ?cs, \<lambda>n. None),
             ?e\<lparr>group_calls := group_calls ?e + 1\<rparr>)
   \<and> ''speednode-a'' \<noteq> []
   \<and> ''speednode-a'' \<in> set (usable_candidates ?cs (\<lambda>n. None))
   \<and> SCORE_THRESHOLD \<le> score (dyn_penalty ?e) ''speednode-a''
   \<and> (\<forall>i < length PREFLIGHT_URLS.
         \<exists>c. probe_reply ?w (probe_calls ?e + i) = Status c \<and> 200 \<le> c \<and> c \<le> 399)
   \<and> ?st' = (register_candidates ?cs ?e)\<lparr>group_calls := group_calls ?e + 1,
               probe_calls := probe_calls ?e + length PREFLIGHT_URLS\<rparr>"
    using g u sc pf st' by (intro conjI) simp_all
  note t = sticky_stability [where w = ?w and st = ?e and n = "''speednode-a''" and cs = ?cs
      and alive_map = "\<lambda>n. None" and st' = ?st' and fuel = 0 and s = settings_on
      and ?st0.0 = "init_pool 0", rule_format, OF h]
  have e: "?e = maybe_refresh_dynamic ?w
             ((init_pool 0)\<lparr>init_calls := init_calls (init_pool 0) + 1, lock_held := True\<rparr>)"
    by (simp add: maybe_refresh_dynamic_def Let_def world_def init_pool_def
        REFRESH_IDLE_SECONDS_def)
  have c: "enabled settings_on \<and> \<not> lock_held (init_pool 0)
      \<and> (init_reply ?w (init_calls (init_pool 0)) \<or> \<not> required settings_on)
      \<and> ?e = maybe_refresh_dynamic ?w
             ((init_pool 0)\<lparr>init_calls := init_calls (init_pool 0) + 1, lock_held := True\<rparr>)"
    using e by (simp add: settings_on_def init_pool_def world_def)
  have i: "monotonic ?w (clock_calls (init_pool 0)) - last_switch_ts (init_pool 0)
             < REFRESH_IDLE_SECONDS"
    by (simp add: world_def init_pool_def REFRESH_IDLE_SECONDS_def)
  have d: "enabled settings_on \<and> (init_reply ?w (init_calls ?st') \<or> \<not> required settings_on)
        \<and> monotonic ?w (clock_calls ?st') - last_switch_ts ?st' < REFRESH_IDLE_SECONDS
        \<and> proxies_reply ?w (group_calls ?st') = proxies_reply ?w (group_calls ?e)
        \<and> (\<forall>i < length PREFLIGHT_URLS.
              \<exists>c. probe_reply ?w (probe_calls ?st' + i) = Status c \<and> 200 \<le> c \<and> c \<le> 399)"
    by (simp add: settings_on_def world_def register_frame init_pool_def REFRESH_IDLE_SECONDS_def)
  from t have 1: "ensure_loop (Suc 0) ?w ?e = Some (Returns ''speednode-a'', ?st')"
    and 2: "put_calls ?st' = put_calls ?e"
    by blast+
  from t c have 3: "ensure_proxy_reachable (Suc 0) settings_on ?w (init_pool 0)
              = Some (Returns (), ?st'\<lparr>lock_held := False\<rparr>)"
    by blast
  from t c i have 5: "last_switch_ts ?st' = last_switch_ts (init_pool 0)"
    and 6: "events ?st' = events (init_pool 0)"
    by blast+
  from t d obtain F' where
    7: "ensure_proxy_reachable (Suc 0) settings_on ?w (?st'\<lparr>lock_held := False\<rparr>)
          = Some (Returns (), F')"
    and 8: "last_switch_ts F' = last_switch_ts ?st'" "events F' = events ?st'"
      "put_calls F' = put_calls ?st'"
    by blast
  from 2 have 4: "put_calls ?st' = 0" by (simp add: init_pool_def)
  from 5 have f5: "last_switch_ts ?st' = 0" by (simp add: init_pool_def)
  from 6 have f6: "events ?st' = []" by (simp add: init_pool_def)
  from 7 8 4 f5 f6 have 9: "\<exists>F'. ensure_proxy_reachable (Suc 0) settings_on ?w
             (?st'\<lparr>lock_held := False\<rparr>) = Some (Returns (), F')
          \<and> last_switch_ts F' = 0 \<and> events F' = [] \<and> put_calls F' = 0"
    by (intro exI [of _ F']) simp
  from 1 3 4 f5 f6 9 show ?thesis by simp
qed

text \<open>
  The claim as the specification states it fails for the call as a whole. The group
  names the first fast node as current, every probe passes, and the second node
  carries a penalty of 30; the clock stands seven hours past the timer. On entry to the
  loop the current node is selected, usable and above the threshold, and the sticky
  check keeps it. Yet the call, which returns without a request, has set the penalty of
  the second node to zero and the timer to the clock: the idle reset ran before the
  loop.
\<close>

theorem sticky_stability_counterexample:
  "fst (get_group (world 25200 (group_ab (Some ''speednode-a'')) (\<lambda>i. Status 204))
          (maybe_refresh_dynamic (world 25200 (group_ab (Some ''speednode-a'')) (\<lambda>i. Status 204))
             (pool_penalised\<lparr>init_calls := 1, lock_held := True\<rparr>)))
     = Inr (Some ''speednode-a'', [''speednode-a'', ''speednode-b''], \<lambda>n. None)
   \<and> ''speednode-a'' \<in> set (usable_candidates [''speednode-a'', ''speednode-b''] (\<lambda>n. None))
   \<and> SCORE_THRESHOLD
        \<le> score (dyn_penalty
            (maybe_refresh_dynamic (world 25200 (group_ab (Some ''speednode-a'')) (\<lambda>i. Status 204))
               (pool_penalised\<lparr>init_calls := 1, lock_held := True\<rparr>))) ''speednode-a''
   \<and> fst (sticky (world 25200 (group_ab (Some ''speednode-a'')) (\<lambda>i. Status 204))
             (Some ''speednode-a'') [''speednode-a'', ''speednode-b'']
             (maybe_refresh_dynamic (world 25200 (group_ab (Some ''speednode-a'')) (\<lambda>i. Status 204))
                (pool_penalised\<lparr>init_calls := 1, lock_held := True\<rparr>))) = Some ''speednode-a''
   \<and> ensure_proxy_reachable (Suc 0) settings_on
        (world 25200 (group_ab (Some ''speednode-a'')) (\<lambda>i. Status 204)) pool_penalised
     = Some (Returns (),
         (init_pool 0)\<lparr>dyn_penalty := [(''speednode-a'', 0), (''speednode-b'', 0)],
            last_switch_ts := 25200, clock_calls := 2, group_calls := 1, probe_calls := 2,
            init_calls := 1, events := [Refreshed]\<rparr>)
   \<and> dict_get (dyn_penalty pool_penalised) ''speednode-b'' 0 = 30
   \<and> last_switch_ts pool_penalised = 0"
proof -
  let ?w = "world 25200 (group_ab (Some ''speednode-a'')) (\<lambda>i. Status 204)"
  let ?cs = "[''speednode-a'', ''speednode-b'']"
  let ?dyn = "[(''speednode-a'', 0), (''speednode-b'', 0)] :: (string \<times> real) list"
  let ?E = "(init_pool 0)\<lparr>dyn_penalty := ?dyn, last_switch_ts := 25200, clock_calls := 2,
              init_calls := 1, lock_held := True, events := [Refreshed]\<rparr>"
  have E: "maybe_refresh_dynamic ?w (pool_penalised\<lparr>init_calls := 1, lock_held := True\<rparr>) = ?E"
    by (simp add: maybe_refresh_dynamic_def Let_def world_def pool_penalised_def init_pool_def
        REFRESH_IDLE_SECONDS_def)
  have g: "get_group ?w ?E = (Inr (Some ''speednode-a'', ?cs, \<lambda>n. None),
             ?E\<lparr>group_calls := group_calls ?E + 1\<rparr>)"
    by (rule get_group_ab)
  have u: "''speednode-a'' \<in> set (usable_candidates ?cs (\<lambda>n. None))"
    by (simp add: usable_ab)
  have sc: "SCORE_THRESHOLD \<le> score (dyn_penalty ?E) ''speednode-a''"
    using score_speednode_b(2) by (simp add: score_def dict_get_def SCORE_THRESHOLD_def)
  have s: "fst (sticky ?w (Some ''speednode-a'') ?cs ?E) = Some ''speednode-a''"
    using sc by (simp add: sticky_def preflight_ok)
  have pf: "\<forall>i < length PREFLIGHT_URLS.
         \<exists>c. probe_reply ?w (probe_calls ?E + i) = Status c \<and> 200 \<le> c \<and> c \<le> 399"
    by (simp add: world_def)
  have loop: "ensure_loop (Suc 0) ?w ?E
                = Some (Returns ''speednode-a'',
                    (register_candidates ?cs ?E)\<lparr>group_calls := group_calls ?E + 1,
                       probe_calls := probe_calls ?E + length PREFLIGHT_URLS\<rparr>)"
    by (rule ensure_loop_keeps [OF g _ u sc pf]) simp
  have whole: "ensure_proxy_reachable (Suc 0) settings_on ?w pool_penalised
        = Some (Returns (),
            ((register_candidates ?cs ?E)\<lparr>group_calls := group_calls ?E + 1,
               probe_calls := probe_calls ?E + length PREFLIGHT_URLS\<rparr>)\<lparr>lock_held := False\<rparr>)"
  proof (rule ensure_proxy_reachable_loop)
    show "enabled settings_on" by (simp add: settings_on_def)
    show "\<not> lock_held pool_penalised" by (simp add: pool_penalised_def init_pool_def)
    show "init_reply ?w (init_calls pool_penalised) \<or> \<not> required settings_on"
      by (simp add: world_def)
    have "pool_penalised\<lparr>init_calls := init_calls pool_penalised + 1, lock_held := True\<rparr>
            = pool_penalised\<lparr>init_calls := 1, lock_held := True\<rparr>"
      by (simp add: pool_penalised_def init_pool_def)
    then show "ensure_loop (Suc 0) ?w
            (maybe_refresh_dynamic ?w
               (pool_penalised\<lparr>init_calls := init_calls pool_penalised + 1, lock_held := True\<rparr>))
          = Some (Returns ''speednode-a'',
              (register_candidates ?cs ?E)\<lparr>group_calls := group_calls ?E + 1,
                 probe_calls := probe_calls ?E + length PREFLIGHT_URLS\<rparr>)"
      using loop by (simp only: E)
  qed
  have fin: "((register_candidates ?cs ?E)\<lparr>group_calls := group_calls ?E + 1,
               probe_calls := probe_calls ?E + length PREFLIGHT_URLS\<rparr>)\<lparr>lock_held := False\<rparr>
           = (init_pool 0)\<lparr>dyn_penalty := ?dyn, last_switch_ts := 25200, clock_calls := 2,
                group_calls := 1, probe_calls := 2, init_calls := 1, events := [Refreshed]\<rparr>"
    by (simp add: register_candidates_def setdefault_def init_pool_def PREFLIGHT_URLS_def)
  have p: "dict_get (dyn_penalty pool_penalised) ''speednode-b'' 0 = 30"
    "last_switch_ts pool_penalised = 0"
    by (simp_all add: pool_penalised_def init_pool_def dict_get_def)
  from g have g': "fst (get_group ?w ?E) = Inr (Some ''speednode-a'', ?cs, \<lambda>n. None)" by simp
  from g' u sc s whole p show ?thesis unfolding E fin by (intro conjI)
qed

subsection \<open>The ledger across calls\<close>

lemma ledger_grows_refl: "ledger_grows a a"
  by (simp add: ledger_grows_def)

lemma ledger_grows_trans: "ledger_grows a b \<Longrightarrow> ledger_grows b c \<Longrightarrow> ledger_grows a c"
  unfolding ledger_grows_def
  by (metis (no_types, lifting) le_antisym order_trans)

lemma ledger_grows_cong:
  "events b' = events b \<Longrightarrow> dyn_penalty b' = dyn_penalty b \<Longrightarrow>
   ledger_grows a b \<Longrightarrow> ledger_grows a b'"
  by (simp add: ledger_grows_def refreshes_def)

lemma ledger_grows_cong_start:
  "events a' = events a \<Longrightarrow> dyn_penalty a' = dyn_penalty a \<Longrightarrow>
   ledger_grows a b \<Longrightarrow> ledger_grows a' b"
  by (simp add: ledger_grows_def refreshes_def)

lemma ledger_grows_refresh: "ledger_grows st (maybe_refresh_dynamic w st)"
  by (simp add: ledger_grows_def refreshes_def maybe_refresh_dynamic_def Let_def)

lemma ledger_grows_penalty: "ledger_grows st (apply_penalty n kind st)"
  using apply_penalty_mono
  by (simp add: ledger_grows_def refreshes_def apply_penalty_frame)

lemma ledger_grows_loop:
  "ensure_loop fuel w st = Some (r, st') \<Longrightarrow> ledger_grows st st'"
  using ensure_loop_mono ensure_loop_refreshes
  by (simp add: ledger_grows_def)

lemma ensure_started_frame:
  "events (snd (ensure_started s w st)) = events st"
  "dyn_penalty (snd (ensure_started s w st)) = dyn_penalty st"
  "lock_held (snd (ensure_started s w st)) = lock_held st"
  by (simp_all add: ensure_started_def Let_def)

lemma ledger_grows_reachable:
  assumes "ensure_proxy_reachable fuel s w st = Some (r, st')"
  shows "ledger_grows st st'"
proof (cases "enabled s")
  case False
  with assms show ?thesis by (simp add: ensure_proxy_reachable_def ledger_grows_refl)
next
  case True
  obtain r1 st1 where es: "ensure_started s w st = (r1, st1)" by (metis surj_pair)
  then have f: "events st1 = events st" "dyn_penalty st1 = dyn_penalty st"
    using ensure_started_frame [of s w st] by simp_all
  have base: "ledger_grows st st1"
    using f by (intro ledger_grows_cong [OF _ _ ledger_grows_refl]) simp_all
  show ?thesis
  proof (cases "r1 = Returns () \<and> \<not> lock_held st1")
    case False
    with assms True es have "st' = st1"
      by (cases r1) (auto simp: ensure_proxy_reachable_def split: if_splits)
    with base show ?thesis by simp
  next
    case run: True
    let ?e = "maybe_refresh_dynamic w (st1\<lparr>lock_held := True\<rparr>)"
    from assms True es run obtain r2 st2 where
      l: "ensure_loop fuel w ?e = Some (r2, st2)"
      and st': "events st' = events st2" "dyn_penalty st' = dyn_penalty st2"
      by (auto simp: ensure_proxy_reachable_def split: option.splits outcome.splits)
    have a: "ledger_grows st (st1\<lparr>lock_held := True\<rparr>)"
      using f by (intro ledger_grows_cong [OF _ _ ledger_grows_refl]) simp_all
    have b: "ledger_grows (st1\<lparr>lock_held := True\<rparr>) ?e" by (rule ledger_grows_refresh)
    have c: "ledger_grows ?e st2" by (rule ledger_grows_loop [OF l])
    have "ledger_grows st st2"
      by (rule ledger_grows_trans [OF ledger_grows_trans [OF a b] c])
    then show ?thesis using st' by (intro ledger_grows_cong [of st' st2]) simp_all
  qed
qed


lemma ledger_grows_on_failure:
  assumes "on_failure fuel s w st kind detail = Some (r, st')"
  shows "ledger_grows st st'"
proof (cases "enabled s")
  case False
  with assms show ?thesis by (simp add: on_failure_def ledger_grows_refl)
next
  case True
  obtain r1 st1 where es: "ensure_started s w st = (r1, st1)" by (metis surj_pair)
  then have f: "events st1 = events st" "dyn_penalty st1 = dyn_penalty st"
    using ensure_started_frame [of s w st] by simp_all
  have base: "ledger_grows st st1"
    using f by (intro ledger_grows_cong [OF _ _ ledger_grows_refl]) simp_all
  show ?thesis
  proof (cases "r1 = Returns () \<and> \<not> lock_held st1")
    case False
    with assms True es have "st' = st1"
      by (cases r1) (auto simp: on_failure_def split: if_splits)
    with base show ?thesis by simp
  next
    case run: True
    let ?l = "st1\<lparr>lock_held := True\<rparr>"
    obtain g st2 where gg: "get_group w ?l = (g, st2)" by (metis surj_pair)
    then have st2: "st2 = ?l\<lparr>group_calls := group_calls ?l + 1\<rparr>"
      using get_group_frame [of w ?l] by simp
    have a: "ledger_grows st st2"
      using f st2 by (intro ledger_grows_cong [OF _ _ ledger_grows_refl]) simp_all
    show ?thesis
    proof (cases g)
      case (Inl e)
      with assms True es run gg have "st' = st2\<lparr>lock_held := False\<rparr>"
        by (simp add: on_failure_def)
      then show ?thesis using a by (intro ledger_grows_cong [of st' st2]) simp_all
    next
      case (Inr t)
      then obtain now cs alive_map where t: "g = Inr (now, cs, alive_map)"
        by (metis surj_pair)
      show ?thesis
      proof (cases "truthy now")
        case False
        with assms True es run gg t obtain r3 st3 where
          e: "ensure_proxy_reachable fuel s w st2 = Some (r3, st3)"
          and st': "events st' = events st3" "dyn_penalty st' = dyn_penalty st3"
          by (auto simp: on_failure_def split: option.splits outcome.splits)
        have "ledger_grows st st3"
          by (rule ledger_grows_trans [OF a ledger_grows_reachable [OF e]])
        then show ?thesis using st' by (intro ledger_grows_cong [of st' st3]) simp_all
      next
        case sel: True
        let ?p = "(apply_penalty (the now) kind st2)\<lparr>lock_held := False\<rparr>"
        from assms True es run gg t sel
        have e: "ensure_proxy_reachable fuel s w ?p = Some (r, st')"
          by (simp add: on_failure_def)
        have "ledger_grows st2 (apply_penalty (the now) kind st2)" by (rule ledger_grows_penalty)
        then have b: "ledger_grows st2 ?p"
          by (intro ledger_grows_cong [of ?p "apply_penalty (the now) kind st2"]) simp_all
        show ?thesis
          by (rule ledger_grows_trans [OF ledger_grows_trans [OF a b] ledger_grows_reachable [OF e]])
      qed
    qed
  qed
qed

lemma ledger_grows_run:
  "run_calls fuel s w calls st = Some st' \<Longrightarrow> ledger_grows st st'"
proof (induction calls arbitrary: st)
  case Nil
  then show ?case by (simp add: ledger_grows_refl)
next
  case (Cons c cs)
  let ?one = "case c of EnsureReachable \<Rightarrow> ensure_proxy_reachable fuel s w st
              | OnFailure kind detail \<Rightarrow> on_failure fuel s w st kind detail"
  from Cons.prems obtain r st1 where one: "?one = Some (r, st1)"
    by (cases ?one) auto
  have step: "ledger_grows st st1"
    using one ledger_grows_reachable ledger_grows_on_failure by (cases c) auto
  show ?case
  proof (cases "r = Blocks")
    case True
    with Cons.prems one have "st' = st1" by simp
    with step show ?thesis by simp
  next
    case False
    with Cons.prems one have "run_calls fuel s w cs st1 = Some st'"
      by (cases r) simp_all
    from ledger_grows_trans [OF step Cons.IH [OF this]] show ?thesis .
  qed
qed

text \<open>
  C1. The score of a name is its base score less its penalty, a name absent from the
  ledger counting 0. A penalty is one of four positive amounts and is added to the entry
  of the penalised node only. The loop never lowers an entry; and over a call of
  \<open>on_failure\<close> or \<open>ensure_proxy_reachable\<close>, or any run of such calls, in which no
  idle reset is recorded, no entry of the ledger goes down.
\<close>

theorem penalty_monotone:
  "score dyn name = base_score name - dict_get dyn name 0
   \<and> (map_of dyn name = None \<longrightarrow> score dyn name = base_score name)
   \<and> 0 < penalty_amount kind
   \<and> (\<forall>m. dict_get (dyn_penalty (apply_penalty n kind st)) m 0
           = dict_get (dyn_penalty st) m 0 + (if m = n then penalty_amount kind else 0))
   \<and> (ensure_loop fuel w st = Some (r0, st0) \<longrightarrow>
        (\<forall>m. dict_get (dyn_penalty st) m 0 \<le> dict_get (dyn_penalty st0) m 0))
   \<and> (on_failure fuel s w st kind detail = Some (r1, st1) \<and> refreshes st1 = refreshes st \<longrightarrow>
        (\<forall>m. dict_get (dyn_penalty st) m 0 \<le> dict_get (dyn_penalty st1) m 0))
   \<and> (ensure_proxy_reachable fuel s w st = Some (r2, st2) \<and> refreshes st2 = refreshes st \<longrightarrow>
        (\<forall>m. dict_get (dyn_penalty st) m 0 \<le> dict_get (dyn_penalty st2) m 0))
   \<and> (run_calls fuel s w calls st = Some st3 \<and> refreshes st3 = refreshes st \<longrightarrow>
        (\<forall>m. dict_get (dyn_penalty st) m 0 \<le> dict_get (dyn_penalty st3) m 0))"
proof (intro conjI impI allI)
  show "score dyn name = base_score name - dict_get dyn name 0" by (simp add: score_def)
  show "score dyn name = base_score name" if "map_of dyn name = None"
    using that by (simp add: score_def dict_get_def)
  show "0 < penalty_amount kind" by (rule penalty_amount_pos)
  show "dict_get (dyn_penalty (apply_penalty n kind st)) m 0
           = dict_get (dyn_penalty st) m 0 + (if m = n then penalty_amount kind else 0)" for m
    by (rule dict_get_apply_penalty)
  show "dict_get (dyn_penalty st) m 0 \<le> dict_get (dyn_penalty st0) m 0"
    if "ensure_loop fuel w st = Some (r0, st0)" for m
    using that by (rule ensure_loop_mono)
  show "dict_get (dyn_penalty st) m 0 \<le> dict_get (dyn_penalty st1) m 0"
    if "on_failure fuel s w st kind detail = Some (r1, st1) \<and> refreshes st1 = refreshes st" for m
    using that ledger_grows_on_failure [of fuel s w st kind detail r1 st1]
    by (simp add: ledger_grows_def)
  show "dict_get (dyn_penalty st) m 0 \<le> dict_get (dyn_penalty st2) m 0"
    if "ensure_proxy_reachable fuel s w st = Some (r2, st2) \<and> refreshes st2 = refreshes st" for m
    using that ledger_grows_reachable [of fuel s w st r2 st2]
    by (simp add: ledger_grows_def)
  show "dict_get (dyn_penalty st) m 0 \<le> dict_get (dyn_penalty st3) m 0"
    if "run_calls fuel s w calls st = Some st3 \<and> refreshes st3 = refreshes st" for m
    using that ledger_grows_run [of fuel s w calls st st3]
    by (simp add: ledger_grows_def)
qed


lemma on_failure_mail:
  "on_failure (Suc 0) settings_on (world 0 (group_ab (Some ''speednode-a'')) (\<lambda>i. Status 204))
     (init_pool 0) ''mail'' ''otp_timeout''
   = Some (Returns (),
       (init_pool 0)\<lparr>init_calls := 2, group_calls := 2,
          dyn_penalty := [(''speednode-a'', 5), (''speednode-b'', 0)],
          clock_calls := 1, probe_calls := 2\<rparr>)"
proof -
  let ?w = "world 0 (group_ab (Some ''speednode-a'')) (\<lambda>i. Status 204)"
  let ?cs = "[''speednode-a'', ''speednode-b'']"
  let ?p = "(init_pool 0)\<lparr>init_calls := 1, group_calls := 1,
              dyn_penalty := [(''speednode-a'', 5)]\<rparr>"
  let ?e = "?p\<lparr>init_calls := 2, lock_held := True, clock_calls := 1\<rparr>"
  let ?st' = "(register_candidates ?cs ?e)\<lparr>group_calls := group_calls ?e + 1,
                probe_calls := probe_calls ?e + length PREFLIGHT_URLS\<rparr>"
  have len: "length PREFLIGHT_URLS = 2" by (simp add: PREFLIGHT_URLS_def)
  have first: "on_failure (Suc 0) settings_on ?w (init_pool 0) ''mail'' ''otp_timeout''
      = ensure_proxy_reachable (Suc 0) settings_on ?w ?p"
    unfolding on_failure_def ensure_started_def get_group_ab
    by (simp add: settings_on_def world_def init_pool_def truthy_def apply_penalty_def
        dict_get_def penalty_amount_def PENALTY_MAIL_def Let_def)
  have g: "get_group ?w ?e = (Inr (Some ''speednode-a'', ?cs, \<lambda>n. None),
             ?e\<lparr>group_calls := group_calls ?e + 1\<rparr>)"
    by (rule get_group_ab)
  have u: "''speednode-a'' \<in> set (usable_candidates ?cs (\<lambda>n. None))"
    by (simp add: usable_ab)
  have sc: "SCORE_THRESHOLD \<le> score (dyn_penalty ?e) ''speednode-a''"
    using base_score_speednode [OF parse_speednode_ab(1)]
    by (simp add: init_pool_def SCORE_THRESHOLD_def score_def dict_get_def)
  have pf: "\<forall>i < length PREFLIGHT_URLS.
         \<exists>c. probe_reply ?w (probe_calls ?e + i) = Status c \<and> 200 \<le> c \<and> c \<le> 399"
    by (simp add: world_def)
  have loop: "ensure_loop (Suc 0) ?w ?e = Some (Returns ''speednode-a'', ?st')"
    by (rule ensure_loop_keeps [OF g _ u sc pf]) simp
  have e: "maybe_refresh_dynamic ?w (?p\<lparr>init_calls := init_calls ?p + 1, lock_held := True\<rparr>) = ?e"
    by (simp add: maybe_refresh_dynamic_def Let_def world_def init_pool_def
        REFRESH_IDLE_SECONDS_def)
  have en: "enabled settings_on" by (simp add: settings_on_def)
  have nl: "\<not> lock_held ?p" by (simp add: init_pool_def)
  have ini: "init_reply ?w (init_calls ?p) \<or> \<not> required settings_on"
    by (simp add: world_def)
  have loop': "ensure_loop (Suc 0) ?w
      (maybe_refresh_dynamic ?w (?p\<lparr>init_calls := init_calls ?p + 1, lock_held := True\<rparr>))
      = Some (Returns ''speednode-a'', ?st')"
    unfolding e by (rule loop)
  have "ensure_proxy_reachable (Suc 0) settings_on ?w ?p
          = Some (Returns (), ?st'\<lparr>lock_held := False\<rparr>)"
    by (rule ensure_proxy_reachable_loop [OF en nl ini loop'])
  moreover have "?st'\<lparr>lock_held := False\<rparr>
      = (init_pool 0)\<lparr>init_calls := 2, group_calls := 2,
          dyn_penalty := [(''speednode-a'', 5), (''speednode-b'', 0)],
          clock_calls := 1, probe_calls := 2\<rparr>"
    by (simp add: register_candidates_def setdefault_def init_pool_def len)
  ultimately show ?thesis using first by simp
qed

text \<open>The witness: a mail failure is reported while the first of two fast nodes is
  selected; it gets its penalty of 5 and stays selected.\<close>

theorem penalty_monotone_witness:
  "on_failure (Suc 0) settings_on (world 0 (group_ab (Some ''speednode-a'')) (\<lambda>i. Status 204))
     (init_pool 0) ''mail'' ''otp_timeout''
   = Some (Returns (),
       (init_pool 0)\<lparr>init_calls := 2, group_calls := 2,
          dyn_penalty := [(''speednode-a'', 5), (''speednode-b'', 0)],
          clock_calls := 1, probe_calls := 2\<rparr>)
   \<and> dict_get (dyn_penalty (init_pool 0)) ''speednode-a'' 0
       \<le> dict_get [(''speednode-a'', 5), (''speednode-b'', 0)] ''speednode-a'' (0::real)
   \<and> dict_get [(''speednode-a'', 5), (''speednode-b'', 0)] ''speednode-a'' (0::real) = 5"
proof -
  let ?w = "world 0 (group_ab (Some ''speednode-a'')) (\<lambda>i. Status 204)"
  let ?st1 = "(init_pool 0)\<lparr>init_calls := 2, group_calls := 2,
          dyn_penalty := [(''speednode-a'', 5), (''speednode-b'', 0)],
          clock_calls := 1, probe_calls := 2\<rparr>"
  have run: "on_failure (Suc 0) settings_on ?w (init_pool 0) ''mail'' ''otp_timeout''
               = Some (Returns (), ?st1)"
    by (rule on_failure_mail)
  have h: "on_failure (Suc 0) settings_on ?w (init_pool 0) ''mail'' ''otp_timeout''
               = Some (Returns (), ?st1) \<and> refreshes ?st1 = refreshes (init_pool 0)"
    using run by (simp add: refreshes_def init_pool_def)
  note t = penalty_monotone [where fuel = "Suc 0" and s = settings_on and w = ?w
      and st = "init_pool 0" and kind = "''mail''" and detail = "''otp_timeout''"
      and ?r1.0 = "Returns ()" and ?st1.0 = ?st1]
  from t h have "\<forall>m. dict_get (dyn_penalty (init_pool 0)) m 0 \<le> dict_get (dyn_penalty ?st1) m 0"
    by blast
  then have "dict_get (dyn_penalty (init_pool 0)) ''speednode-a'' 0
       \<le> dict_get [(''speednode-a'', 5), (''speednode-b'', 0)] ''speednode-a'' (0::real)"
    by (simp add: init_pool_def)
  moreover have "dict_get [(''speednode-a'', 5), (''speednode-b'', 0)] ''speednode-a'' (0::real) = 5"
    by (simp add: dict_get_def)
  ultimately show ?thesis using run by simp
qed

subsection \<open>The failure hook with no node selected\<close>

lemma ensure_proxy_reachable_locked:
  "enabled s \<Longrightarrow> lock_held st \<Longrightarrow> ensure_proxy_reachable fuel s w st = Some (Blocks, st)"
  by (simp add: ensure_proxy_reachable_def ensure_started_def)

text \<open>
  C10, on the code. With the pool switched on, the lock free and the start-up passing,
  \<open>on_failure\<close> with no node selected never returns: it calls the ensure-reachable
  procedure while it holds the lock, and the procedure waits for that lock in
  \<open>ensure_started\<close>. The ledger is as before, no probe or selection request is made,
  and the lock stays held. With a node selected, the call adds the penalty of the kind
  to that node, leaves the lock and then runs the procedure; a kind that is not one of
  preflight, risk, proxy and mail costs the risk penalty, 60.
\<close>

theorem on_failure_no_selection:
  "enabled s \<and> \<not> lock_held st \<and> (init_reply w (init_calls st) \<or> \<not> required s)
   \<and> proxies_reply w (group_calls st) = Some g \<longrightarrow>
     (\<not> truthy (g_now g) \<longrightarrow>
        on_failure fuel s w st kind detail
          = Some (Blocks, st\<lparr>init_calls := init_calls st + 1, lock_held := True,
                             group_calls := group_calls st + 1\<rparr>))
   \<and> (truthy (g_now g) \<longrightarrow>
        on_failure fuel s w st kind detail
          = ensure_proxy_reachable fuel s w
              (apply_penalty (the (g_now g)) kind
                 (st\<lparr>init_calls := init_calls st + 1, group_calls := group_calls st + 1\<rparr>)))
   \<and> (kind \<notin> set [''preflight'', ''risk'', ''proxy'', ''mail''] \<longrightarrow> penalty_amount kind = 60)"
proof (intro impI conjI)
  assume h: "enabled s \<and> \<not> lock_held st \<and> (init_reply w (init_calls st) \<or> \<not> required s)
   \<and> proxies_reply w (group_calls st) = Some g"
  let ?st1 = "st\<lparr>init_calls := init_calls st + 1\<rparr>"
  let ?st2 = "st\<lparr>init_calls := init_calls st + 1, lock_held := True,
                group_calls := group_calls st + 1\<rparr>"
  from h have es: "ensure_started s w st = (Returns (), ?st1)"
    by (auto simp: ensure_started_def Let_def)
  from h have gg: "\<exists>cs alive_map.
      get_group w (?st1\<lparr>lock_held := True\<rparr>) = (Inr (g_now g, cs, alive_map), ?st2)"
    by (simp add: get_group_def Let_def)
  {
    assume n: "\<not> truthy (g_now g)"
    have "ensure_proxy_reachable fuel s w ?st2 = Some (Blocks, ?st2)"
      using h by (intro ensure_proxy_reachable_locked) simp_all
    with h es gg n show "on_failure fuel s w st kind detail = Some (Blocks, ?st2)"
      by (auto simp: on_failure_def)
  }
  {
    assume y: "truthy (g_now g)"
    have "(apply_penalty (the (g_now g)) kind ?st2)\<lparr>lock_held := False\<rparr>
        = apply_penalty (the (g_now g)) kind
            (st\<lparr>init_calls := init_calls st + 1, group_calls := group_calls st + 1\<rparr>)"
      using h by (simp add: apply_penalty_def)
    with h es gg y show "on_failure fuel s w st kind detail
          = ensure_proxy_reachable fuel s w
              (apply_penalty (the (g_now g)) kind
                 (st\<lparr>init_calls := init_calls st + 1, group_calls := group_calls st + 1\<rparr>))"
      by (auto simp: on_failure_def)
  }
next
  assume "kind \<notin> set [''preflight'', ''risk'', ''proxy'', ''mail'']"
  then show "penalty_amount kind = 60"
    by (simp add: penalty_amount_def PENALTY_RISK_def)
qed

text \<open>The failing input: a risk failure reported to a fresh pool whose group has two
  fast nodes and no current selection.\<close>

theorem on_failure_no_selection_witness:
  "\<forall>fuel. on_failure fuel settings_on (world 0 (group_ab None) (\<lambda>i. Status 204)) (init_pool 0)
      ''risk'' ''signin-error''
    = Some (Blocks, (init_pool 0)\<lparr>init_calls := 1, lock_held := True, group_calls := 1\<rparr>)"
proof
  fix fuel
  let ?w = "world 0 (group_ab None) (\<lambda>i. Status 204)"
  have h: "enabled settings_on \<and> \<not> lock_held (init_pool 0)
      \<and> (init_reply ?w (init_calls (init_pool 0)) \<or> \<not> required settings_on)
      \<and> proxies_reply ?w (group_calls (init_pool 0)) = Some (group_ab None)"
    by (simp add: settings_on_def init_pool_def world_def)
  have n: "\<not> truthy (g_now (group_ab None))" by (simp add: truthy_def group_ab_def)
  from on_failure_no_selection [where s = settings_on and st = "init_pool 0" and w = ?w
      and g = "group_ab None" and fuel = fuel and kind = "''risk''" and detail = "''signin-error''",
      rule_format, OF h, THEN conjunct1, rule_format, OF n]
  show "on_failure fuel settings_on ?w (init_pool 0) ''risk'' ''signin-error''
    = Some (Blocks, (init_pool 0)\<lparr>init_calls := 1, lock_held := True, group_calls := 1\<rparr>)"
    by (simp add: init_pool_def)
qed

end
